theory Spec2Isabelle
  imports Main "HOL-Library.Word"
begin

unbundle bit_operations_syntax

section \<open>V4L2PixelFormat (v4l2\_pixelformat.cpp)\<close>

text \<open>
  A V4L2PixelFormat wraps the numerical V4L2 FourCC, a \<open>uint32_t\<close>.  The member is
  called \<open>fourcc_\<close> in the class; the record field drops the trailing underscore, which
  the term syntax does not accept.
\<close>

type_synonym uint32_t = "32 word"

record V4L2PixelFormat =
  fourcc :: uint32_t

subsection \<open>The C library functions used by toString\<close>

text \<open>
  \<open>isprint\<close> in the "C" locale: the printable characters are 0x20 (space) to 0x7e (tilde).
\<close>

definition isprint :: "char \<Rightarrow> bool" where
  "isprint c = (32 \<le> (of_char c :: nat) \<and> (of_char c :: nat) \<le> 126)"

text \<open>\<open>static_cast<char>\<close> of a 32-bit value keeps its low byte.\<close>

definition static_cast_char :: "uint32_t \<Rightarrow> char" where
  "static_cast_char w = char_of (unat w)"

definition NUL :: char where
  "NUL = CHR 0x00"

text \<open>
  A \<open>char\<close> array is a list of its elements.  \<open>strlen\<close> counts up to the first NUL;
  an array without one is read past its end, which is the value \<open>None\<close>.
\<close>

definition strlen :: "char list \<Rightarrow> nat option" where
  "strlen buf =
     (if NUL \<in> set buf then Some (length (takeWhile (\<lambda>c. c \<noteq> NUL) buf)) else None)"

text \<open>
  \<open>strcat\<close> writes the source and its terminator at the first NUL of the destination.
  Writing past the end of the array is \<open>None\<close>.
\<close>

definition strcat :: "char list \<Rightarrow> string \<Rightarrow> char list option" where
  "strcat dest src =
     (case strlen dest of
        None \<Rightarrow> None
      | Some n \<Rightarrow>
          if n + length src + 1 \<le> length dest
          then Some (take n dest @ src @ [NUL] @ drop (n + length src + 1) dest)
          else None)"

text \<open>The conversion of a \<open>char\<close> array to \<open>std::string\<close> on return.\<close>

definition std_string :: "char list \<Rightarrow> string option" where
  "std_string buf = (case strlen buf of None \<Rightarrow> None | Some n \<Rightarrow> Some (take n buf))"

subsection \<open>V4L2PixelFormat::toString\<close>

text \<open>
  The loop \<open>for (i = 0; i < 4; i++) if (!isprint(ss[i])) ss[i] = '.'\<close>, with the number
  of iterations left as first argument.
\<close>

fun replace_unprintable :: "nat \<Rightarrow> nat \<Rightarrow> char list \<Rightarrow> char list" where
  "replace_unprintable 0 i ss = ss"
| "replace_unprintable (Suc k) i ss =
     replace_unprintable k (Suc i) (if \<not> isprint (ss ! i) then ss[i := CHR ''.''] else ss)"

definition toString :: "V4L2PixelFormat \<Rightarrow> string option" where
  "toString v =
     (if fourcc v = 0 then Some ''<INVALID>''
      else
        let ss = [static_cast_char (fourcc v AND 0x7f),
                  static_cast_char (drop_bit 8 (fourcc v) AND 0x7f),
                  static_cast_char (drop_bit 16 (fourcc v) AND 0x7f),
                  static_cast_char (drop_bit 24 (fourcc v) AND 0x7f),
                  NUL, NUL, NUL, NUL];
            ss = replace_unprintable 4 0 ss
        in if fourcc v AND push_bit 31 1 \<noteq> 0
           then (case strcat ss ''-BE'' of None \<Rightarrow> None | Some ss' \<Rightarrow> std_string ss')
           else std_string ss)"

subsection \<open>The description of toString, in the words of its specification\<close>

definition byte_of :: "nat \<Rightarrow> uint32_t \<Rightarrow> 8 word" where
  "byte_of i w = ucast (drop_bit (8 * i) w)"

definition printable_or_dot :: "char \<Rightarrow> char" where
  "printable_or_dot c = (if isprint c then c else CHR ''.'')"

definition toString_spec :: "V4L2PixelFormat \<Rightarrow> string" where
  "toString_spec v =
     (if fourcc v = 0 then ''<INVALID>''
      else map (\<lambda>i. printable_or_dot (char_of (unat (take_bit 7 (byte_of i (fourcc v))))))
             [0, 1, 2, 3]
           @ (if bit (fourcc v) 31 then ''-BE'' else []))"

section \<open>Logging\<close>

text \<open>A message written by the \<open>LOG\<close> macro: category, severity and text.\<close>

datatype LogSeverity = LogDebug | LogInfo | LogWarning | LogError | LogFatal

record LogMessage =
  category :: string
  severity :: LogSeverity
  message :: string

section \<open>Method bind and invocation (bound\_method.cpp)\<close>

text \<open>
  Threads, objects, argument packs and semaphores are referred to through pointers; a
  pointer is the address it holds.
\<close>

type_synonym Thread = nat
type_synonym Object = nat
type_synonym BoundMethodPackBase = nat
type_synonym Semaphore = nat

text \<open>
  The enumeration ConnectionType.  A variable of the enumeration type can hold a value
  that is none of the four enumerators; \<open>ConnectionTypeOther\<close> stands for these values.
\<close>

datatype ConnectionType =
    ConnectionTypeAuto
  | ConnectionTypeDirect
  | ConnectionTypeQueued
  | ConnectionTypeBlocking
  | ConnectionTypeOther nat

text \<open>
  The members \<open>object_\<close> and \<open>connectionType_\<close> of BoundMethodBase.  The classes
  derived from it extend the record.
\<close>

record BoundMethodBase =
  object :: Object
  connectionType :: ConnectionType

text \<open>
  The arguments of the constructor \<open>InvokeMessage(method, pack, semaphore, deleteMethod)\<close>;
  the member \<open>method_\<close> is the field \<open>boundMethod\<close>, and a null semaphore pointer is \<open>None\<close>.
\<close>

record 'm InvokeMessage =
  boundMethod :: 'm
  pack :: BoundMethodPackBase
  semaphore :: "Semaphore option"
  deleteMethod :: bool

text \<open>
  What a member function does besides computing its return value, in the order in which
  it does it: the calls it makes into the rest of the library.
\<close>

datatype 'm action =
    InvokePack 'm BoundMethodPackBase
  | DeleteMethod 'm
  | PostMessage Object "'m InvokeMessage"
  | SemaphoreConstruct Semaphore
  | SemaphoreAcquire Semaphore
  | SemaphoreRelease Semaphore
  | Log LogMessage

subsection \<open>BoundMethodBase::activatePack\<close>

text \<open>
  The first statements of activatePack compute the local variable \<open>type\<close>.
  \<open>current\<close> is the value of \<open>Thread::current()\<close> and \<open>thread\<close> gives the value of
  \<open>thread()\<close> for every object.
\<close>

definition effectiveType ::
  "Thread \<Rightarrow> (Object \<Rightarrow> Thread) \<Rightarrow> 'z BoundMethodBase_scheme \<Rightarrow> ConnectionType" where
  "effectiveType current thread this =
     (let type = connectionType this
      in if type = ConnectionTypeAuto
         then (if current = thread (object this)
               then ConnectionTypeDirect
               else ConnectionTypeQueued)
         else type)"

text \<open>
  activatePack returns the calls it makes, in order, and its return value.
  \<open>sem\<close> is the address of the local variable \<open>semaphore\<close> of the blocking case.
\<close>

definition activatePack ::
  "Thread \<Rightarrow> (Object \<Rightarrow> Thread) \<Rightarrow> Semaphore \<Rightarrow> 'z BoundMethodBase_scheme \<Rightarrow>
   BoundMethodPackBase \<Rightarrow> bool \<Rightarrow> ('z BoundMethodBase_scheme) action list \<times> bool" where
  "activatePack current thread sem this pk del =
     (case effectiveType current thread this of
        ConnectionTypeQueued \<Rightarrow>
          ([PostMessage (object this)
              \<lparr>boundMethod = this, pack = pk, semaphore = None, deleteMethod = del\<rparr>],
           False)
      | ConnectionTypeBlocking \<Rightarrow>
          ([SemaphoreConstruct sem,
            PostMessage (object this)
              \<lparr>boundMethod = this, pack = pk, semaphore = Some sem, deleteMethod = del\<rparr>,
            SemaphoreAcquire sem],
           True)
      | _ \<Rightarrow>
          (InvokePack this pk # (if del then [DeleteMethod this] else []), True))"

text \<open>A diagnostic is a message of the log.\<close>

fun is_diagnostic :: "'m action \<Rightarrow> bool" where
  "is_diagnostic (Log m) = True"
| "is_diagnostic _ = False"

fun is_invocation :: "'m action \<Rightarrow> bool" where
  "is_invocation (InvokePack m p) = True"
| "is_invocation _ = False"

section \<open>V4L2PixelFormat: conversion to PixelFormat (v4l2\_pixelformat.cpp)\<close>

subsection \<open>The table vpf2pf\<close>

text \<open>
  The macros \<open>V4L2_PIX_FMT_*\<close> of the V4L2 API and the constants of the namespace
  \<open>formats\<close> that the table names.  Their values are defined outside this file: the
  functions below take them as the parameters \<open>v4l2\<close> (the FourCC of every macro) and
  \<open>fmt\<close> (the PixelFormat of every constant).
\<close>

datatype V4L2_PIX_FMT =
    V4L2_PIX_FMT_RGB565 | V4L2_PIX_FMT_RGB565X | V4L2_PIX_FMT_RGB24 | V4L2_PIX_FMT_BGR24
    | V4L2_PIX_FMT_XBGR32 | V4L2_PIX_FMT_XRGB32 | V4L2_PIX_FMT_RGBX32
    | V4L2_PIX_FMT_RGBA32 | V4L2_PIX_FMT_ABGR32 | V4L2_PIX_FMT_ARGB32
    | V4L2_PIX_FMT_BGRA32 | V4L2_PIX_FMT_YUYV | V4L2_PIX_FMT_YVYU | V4L2_PIX_FMT_UYVY
    | V4L2_PIX_FMT_VYUY | V4L2_PIX_FMT_NV16 | V4L2_PIX_FMT_NV16M | V4L2_PIX_FMT_NV61
    | V4L2_PIX_FMT_NV61M | V4L2_PIX_FMT_NV12 | V4L2_PIX_FMT_NV12M | V4L2_PIX_FMT_NV21
    | V4L2_PIX_FMT_NV21M | V4L2_PIX_FMT_YUV420 | V4L2_PIX_FMT_YUV420M
    | V4L2_PIX_FMT_YVU420 | V4L2_PIX_FMT_YVU420M | V4L2_PIX_FMT_YUV422P
    | V4L2_PIX_FMT_YUV422M | V4L2_PIX_FMT_GREY | V4L2_PIX_FMT_SBGGR8
    | V4L2_PIX_FMT_SGBRG8 | V4L2_PIX_FMT_SGRBG8 | V4L2_PIX_FMT_SRGGB8
    | V4L2_PIX_FMT_SBGGR10 | V4L2_PIX_FMT_SGBRG10 | V4L2_PIX_FMT_SGRBG10
    | V4L2_PIX_FMT_SRGGB10 | V4L2_PIX_FMT_SBGGR10P | V4L2_PIX_FMT_SGBRG10P
    | V4L2_PIX_FMT_SGRBG10P | V4L2_PIX_FMT_SRGGB10P | V4L2_PIX_FMT_SBGGR12
    | V4L2_PIX_FMT_SGBRG12 | V4L2_PIX_FMT_SGRBG12 | V4L2_PIX_FMT_SRGGB12
    | V4L2_PIX_FMT_SBGGR12P | V4L2_PIX_FMT_SGBRG12P | V4L2_PIX_FMT_SGRBG12P
    | V4L2_PIX_FMT_SRGGB12P | V4L2_PIX_FMT_SBGGR16 | V4L2_PIX_FMT_SGBRG16
    | V4L2_PIX_FMT_SGRBG16 | V4L2_PIX_FMT_SRGGB16 | V4L2_PIX_FMT_MJPEG

datatype formats =
    formats_RGB565 | formats_RGB565_BE | formats_BGR888 | formats_RGB888
    | formats_XRGB8888 | formats_BGRX8888 | formats_XBGR8888 | formats_ABGR8888
    | formats_ARGB8888 | formats_BGRA8888 | formats_RGBA8888 | formats_YUYV
    | formats_YVYU | formats_UYVY | formats_VYUY | formats_NV16 | formats_NV61
    | formats_NV12 | formats_NV21 | formats_YUV420 | formats_YVU420 | formats_YUV422
    | formats_R8 | formats_SBGGR8 | formats_SGBRG8 | formats_SGRBG8 | formats_SRGGB8
    | formats_SBGGR10 | formats_SGBRG10 | formats_SGRBG10 | formats_SRGGB10
    | formats_SBGGR10_CSI2P | formats_SGBRG10_CSI2P | formats_SGRBG10_CSI2P
    | formats_SRGGB10_CSI2P | formats_SBGGR12 | formats_SGBRG12 | formats_SGRBG12
    | formats_SRGGB12 | formats_SBGGR12_CSI2P | formats_SGBRG12_CSI2P
    | formats_SGRBG12_CSI2P | formats_SRGGB12_CSI2P | formats_SBGGR16 | formats_SGBRG16
    | formats_SGRBG16 | formats_SRGGB16 | formats_MJPEG

text \<open>The initializer list of vpf2pf, in the order of the source.\<close>

definition vpf2pf_entries :: "(V4L2_PIX_FMT \<times> formats \<times> string) list" where
  "vpf2pf_entries =
    [(V4L2_PIX_FMT_RGB565, formats_RGB565, ''16-bit RGB 5-6-5''),
     (V4L2_PIX_FMT_RGB565X, formats_RGB565_BE, ''16-bit RGB 5-6-5 BE''),
     (V4L2_PIX_FMT_RGB24, formats_BGR888, ''24-bit RGB 8-8-8''),
     (V4L2_PIX_FMT_BGR24, formats_RGB888, ''24-bit BGR 8-8-8''),
     (V4L2_PIX_FMT_XBGR32, formats_XRGB8888, ''32-bit BGRX 8-8-8-8''),
     (V4L2_PIX_FMT_XRGB32, formats_BGRX8888, ''32-bit XRGB 8-8-8-8''),
     (V4L2_PIX_FMT_RGBX32, formats_XBGR8888, ''32-bit RGBX 8-8-8-8''),
     (V4L2_PIX_FMT_RGBA32, formats_ABGR8888, ''32-bit RGBA 8-8-8-8''),
     (V4L2_PIX_FMT_ABGR32, formats_ARGB8888, ''32-bit BGRA 8-8-8-8''),
     (V4L2_PIX_FMT_ARGB32, formats_BGRA8888, ''32-bit ARGB 8-8-8-8''),
     (V4L2_PIX_FMT_BGRA32, formats_RGBA8888, ''32-bit ABGR 8-8-8-8''),
     (V4L2_PIX_FMT_YUYV, formats_YUYV, ''YUYV 4:2:2''),
     (V4L2_PIX_FMT_YVYU, formats_YVYU, ''YVYU 4:2:2''),
     (V4L2_PIX_FMT_UYVY, formats_UYVY, ''UYVY 4:2:2''),
     (V4L2_PIX_FMT_VYUY, formats_VYUY, ''VYUY 4:2:2''),
     (V4L2_PIX_FMT_NV16, formats_NV16, ''Y/CbCr 4:2:2''),
     (V4L2_PIX_FMT_NV16M, formats_NV16, ''Y/CbCr 4:2:2 (N-C)''),
     (V4L2_PIX_FMT_NV61, formats_NV61, ''Y/CrCb 4:2:2''),
     (V4L2_PIX_FMT_NV61M, formats_NV61, ''Y/CrCb 4:2:2 (N-C)''),
     (V4L2_PIX_FMT_NV12, formats_NV12, ''Y/CbCr 4:2:0''),
     (V4L2_PIX_FMT_NV12M, formats_NV12, ''Y/CbCr 4:2:0 (N-C)''),
     (V4L2_PIX_FMT_NV21, formats_NV21, ''Y/CrCb 4:2:0''),
     (V4L2_PIX_FMT_NV21M, formats_NV21, ''Y/CrCb 4:2:0 (N-C)''),
     (V4L2_PIX_FMT_YUV420, formats_YUV420, ''Planar YUV 4:2:0''),
     (V4L2_PIX_FMT_YUV420M, formats_YUV420, ''Planar YUV 4:2:0 (N-C)''),
     (V4L2_PIX_FMT_YVU420, formats_YVU420, ''Planar YVU 4:2:0''),
     (V4L2_PIX_FMT_YVU420M, formats_YVU420, ''Planar YVU 4:2:0 (N-C)''),
     (V4L2_PIX_FMT_YUV422P, formats_YUV422, ''Planar YUV 4:2:2''),
     (V4L2_PIX_FMT_YUV422M, formats_YUV422, ''Planar YUV 4:2:2 (N-C)''),
     (V4L2_PIX_FMT_GREY, formats_R8, ''8-bit Greyscale''),
     (V4L2_PIX_FMT_SBGGR8, formats_SBGGR8, ''8-bit Bayer BGBG/GRGR''),
     (V4L2_PIX_FMT_SGBRG8, formats_SGBRG8, ''8-bit Bayer GBGB/RGRG''),
     (V4L2_PIX_FMT_SGRBG8, formats_SGRBG8, ''8-bit Bayer GRGR/BGBG''),
     (V4L2_PIX_FMT_SRGGB8, formats_SRGGB8, ''8-bit Bayer RGRG/GBGB''),
     (V4L2_PIX_FMT_SBGGR10, formats_SBGGR10, ''10-bit Bayer BGBG/GRGR''),
     (V4L2_PIX_FMT_SGBRG10, formats_SGBRG10, ''10-bit Bayer GBGB/RGRG''),
     (V4L2_PIX_FMT_SGRBG10, formats_SGRBG10, ''10-bit Bayer GRGR/BGBG''),
     (V4L2_PIX_FMT_SRGGB10, formats_SRGGB10, ''10-bit Bayer RGRG/GBGB''),
     (V4L2_PIX_FMT_SBGGR10P, formats_SBGGR10_CSI2P, ''10-bit Bayer BGBG/GRGR Packed''),
     (V4L2_PIX_FMT_SGBRG10P, formats_SGBRG10_CSI2P, ''10-bit Bayer GBGB/RGRG Packed''),
     (V4L2_PIX_FMT_SGRBG10P, formats_SGRBG10_CSI2P, ''10-bit Bayer GRGR/BGBG Packed''),
     (V4L2_PIX_FMT_SRGGB10P, formats_SRGGB10_CSI2P, ''10-bit Bayer RGRG/GBGB Packed''),
     (V4L2_PIX_FMT_SBGGR12, formats_SBGGR12, ''12-bit Bayer BGBG/GRGR''),
     (V4L2_PIX_FMT_SGBRG12, formats_SGBRG12, ''12-bit Bayer GBGB/RGRG''),
     (V4L2_PIX_FMT_SGRBG12, formats_SGRBG12, ''12-bit Bayer GRGR/BGBG''),
     (V4L2_PIX_FMT_SRGGB12, formats_SRGGB12, ''12-bit Bayer RGRG/GBGB''),
     (V4L2_PIX_FMT_SBGGR12P, formats_SBGGR12_CSI2P, ''12-bit Bayer BGBG/GRGR Packed''),
     (V4L2_PIX_FMT_SGBRG12P, formats_SGBRG12_CSI2P, ''12-bit Bayer GBGB/RGRG Packed''),
     (V4L2_PIX_FMT_SGRBG12P, formats_SGRBG12_CSI2P, ''12-bit Bayer GRGR/BGBG Packed''),
     (V4L2_PIX_FMT_SRGGB12P, formats_SRGGB12_CSI2P, ''12-bit Bayer RGRG/GBGB Packed''),
     (V4L2_PIX_FMT_SBGGR16, formats_SBGGR16, ''16-bit Bayer BGBG/GRGR''),
     (V4L2_PIX_FMT_SGBRG16, formats_SGBRG16, ''16-bit Bayer GBGB/RGRG''),
     (V4L2_PIX_FMT_SGRBG16, formats_SGRBG16, ''16-bit Bayer GRGR/BGBG''),
     (V4L2_PIX_FMT_SRGGB16, formats_SRGGB16, ''16-bit Bayer RGRG/GBGB''),
     (V4L2_PIX_FMT_MJPEG, formats_MJPEG, ''Motion-JPEG'')]"

text \<open>The structure V4L2PixelFormat::Info.\<close>

record 'pf Info =
  format :: 'pf
  description :: string

text \<open>
  A \<open>std::map\<close> is a partial map of its keys.  Its construction from an initializer list
  inserts the elements in order, and inserting a key that is already present changes
  nothing.  V4L2PixelFormat keys are compared through their FourCC.
\<close>

definition std_map_insert :: "('k \<rightharpoonup> 'v) \<Rightarrow> 'k \<times> 'v \<Rightarrow> ('k \<rightharpoonup> 'v)" where
  "std_map_insert m kv = (case m (fst kv) of None \<Rightarrow> m(fst kv \<mapsto> snd kv) | Some v \<Rightarrow> m)"

definition std_map :: "('k \<times> 'v) list \<Rightarrow> ('k \<rightharpoonup> 'v)" where
  "std_map xs = foldl std_map_insert Map.empty xs"

definition vpf2pf ::
  "(V4L2_PIX_FMT \<Rightarrow> uint32_t) \<Rightarrow> (formats \<Rightarrow> 'pf) \<Rightarrow> (V4L2PixelFormat \<rightharpoonup> 'pf Info)" where
  "vpf2pf v4l2 fmt =
     std_map (map (\<lambda>(k, f, d). (\<lparr>fourcc = v4l2 k\<rparr>, \<lparr>format = fmt f, description = d\<rparr>))
                vpf2pf_entries)"

subsection \<open>V4L2PixelFormat::toPixelFormat\<close>

text \<open>
  toPixelFormat returns a PixelFormat and writes to the log.  \<open>PixelFormat_default\<close> is
  the value of the default constructor \<open>PixelFormat()\<close>.
\<close>

definition unsupported_warning :: "string \<Rightarrow> LogMessage" where
  "unsupported_warning s =
     \<lparr>category = ''V4L2'', severity = LogWarning,
      message = ''Unsupported V4L2 pixel format '' @ s\<rparr>"

definition toPixelFormat ::
  "(V4L2_PIX_FMT \<Rightarrow> uint32_t) \<Rightarrow> (formats \<Rightarrow> 'pf) \<Rightarrow> 'pf \<Rightarrow> V4L2PixelFormat \<Rightarrow>
   ('pf \<times> LogMessage list) option" where
  "toPixelFormat v4l2 fmt PixelFormat_default this =
     (case vpf2pf v4l2 fmt this of
        None \<Rightarrow>
          (case toString this of
             None \<Rightarrow> None
           | Some s \<Rightarrow> Some (PixelFormat_default, [unsupported_warning s]))
      | Some info \<Rightarrow> Some (format info, []))"

text \<open>
  The values of the macros in the header \<open>linux/videodev2.h\<close>, where
  \<open>v4l2_fourcc(a, b, c, d)\<close> is \<open>a | (b << 8) | (c << 16) | (d << 24)\<close>.  They are one
  choice of the parameter \<open>v4l2\<close>, used to run the table on real FourCCs.
\<close>

definition v4l2_fourcc :: "string \<Rightarrow> uint32_t" where
  "v4l2_fourcc s =
     of_char (s ! 0) OR push_bit 8 (of_char (s ! 1)) OR push_bit 16 (of_char (s ! 2))
       OR push_bit 24 (of_char (s ! 3))"

fun videodev2_h :: "V4L2_PIX_FMT \<Rightarrow> uint32_t" where
  "videodev2_h V4L2_PIX_FMT_RGB565 = v4l2_fourcc ''RGBP''"
| "videodev2_h V4L2_PIX_FMT_RGB565X = v4l2_fourcc ''RGBR''"
| "videodev2_h V4L2_PIX_FMT_RGB24 = v4l2_fourcc ''RGB3''"
| "videodev2_h V4L2_PIX_FMT_BGR24 = v4l2_fourcc ''BGR3''"
| "videodev2_h V4L2_PIX_FMT_XBGR32 = v4l2_fourcc ''XR24''"
| "videodev2_h V4L2_PIX_FMT_XRGB32 = v4l2_fourcc ''BX24''"
| "videodev2_h V4L2_PIX_FMT_RGBX32 = v4l2_fourcc ''XB24''"
| "videodev2_h V4L2_PIX_FMT_RGBA32 = v4l2_fourcc ''AB24''"
| "videodev2_h V4L2_PIX_FMT_ABGR32 = v4l2_fourcc ''AR24''"
| "videodev2_h V4L2_PIX_FMT_ARGB32 = v4l2_fourcc ''BA24''"
| "videodev2_h V4L2_PIX_FMT_BGRA32 = v4l2_fourcc ''RA24''"
| "videodev2_h V4L2_PIX_FMT_YUYV = v4l2_fourcc ''YUYV''"
| "videodev2_h V4L2_PIX_FMT_YVYU = v4l2_fourcc ''YVYU''"
| "videodev2_h V4L2_PIX_FMT_UYVY = v4l2_fourcc ''UYVY''"
| "videodev2_h V4L2_PIX_FMT_VYUY = v4l2_fourcc ''VYUY''"
| "videodev2_h V4L2_PIX_FMT_NV16 = v4l2_fourcc ''NV16''"
| "videodev2_h V4L2_PIX_FMT_NV16M = v4l2_fourcc ''NM16''"
| "videodev2_h V4L2_PIX_FMT_NV61 = v4l2_fourcc ''NV61''"
| "videodev2_h V4L2_PIX_FMT_NV61M = v4l2_fourcc ''NM61''"
| "videodev2_h V4L2_PIX_FMT_NV12 = v4l2_fourcc ''NV12''"
| "videodev2_h V4L2_PIX_FMT_NV12M = v4l2_fourcc ''NM12''"
| "videodev2_h V4L2_PIX_FMT_NV21 = v4l2_fourcc ''NV21''"
| "videodev2_h V4L2_PIX_FMT_NV21M = v4l2_fourcc ''NM21''"
| "videodev2_h V4L2_PIX_FMT_YUV420 = v4l2_fourcc ''YU12''"
| "videodev2_h V4L2_PIX_FMT_YUV420M = v4l2_fourcc ''YM12''"
| "videodev2_h V4L2_PIX_FMT_YVU420 = v4l2_fourcc ''YV12''"
| "videodev2_h V4L2_PIX_FMT_YVU420M = v4l2_fourcc ''YM21''"
| "videodev2_h V4L2_PIX_FMT_YUV422P = v4l2_fourcc ''422P''"
| "videodev2_h V4L2_PIX_FMT_YUV422M = v4l2_fourcc ''YM16''"
| "videodev2_h V4L2_PIX_FMT_GREY = v4l2_fourcc ''GREY''"
| "videodev2_h V4L2_PIX_FMT_SBGGR8 = v4l2_fourcc ''BA81''"
| "videodev2_h V4L2_PIX_FMT_SGBRG8 = v4l2_fourcc ''GBRG''"
| "videodev2_h V4L2_PIX_FMT_SGRBG8 = v4l2_fourcc ''GRBG''"
| "videodev2_h V4L2_PIX_FMT_SRGGB8 = v4l2_fourcc ''RGGB''"
| "videodev2_h V4L2_PIX_FMT_SBGGR10 = v4l2_fourcc ''BG10''"
| "videodev2_h V4L2_PIX_FMT_SGBRG10 = v4l2_fourcc ''GB10''"
| "videodev2_h V4L2_PIX_FMT_SGRBG10 = v4l2_fourcc ''BA10''"
| "videodev2_h V4L2_PIX_FMT_SRGGB10 = v4l2_fourcc ''RG10''"
| "videodev2_h V4L2_PIX_FMT_SBGGR10P = v4l2_fourcc ''pBAA''"
| "videodev2_h V4L2_PIX_FMT_SGBRG10P = v4l2_fourcc ''pGAA''"
| "videodev2_h V4L2_PIX_FMT_SGRBG10P = v4l2_fourcc ''pgAA''"
| "videodev2_h V4L2_PIX_FMT_SRGGB10P = v4l2_fourcc ''pRAA''"
| "videodev2_h V4L2_PIX_FMT_SBGGR12 = v4l2_fourcc ''BG12''"
| "videodev2_h V4L2_PIX_FMT_SGBRG12 = v4l2_fourcc ''GB12''"
| "videodev2_h V4L2_PIX_FMT_SGRBG12 = v4l2_fourcc ''BA12''"
| "videodev2_h V4L2_PIX_FMT_SRGGB12 = v4l2_fourcc ''RG12''"
| "videodev2_h V4L2_PIX_FMT_SBGGR12P = v4l2_fourcc ''pBCC''"
| "videodev2_h V4L2_PIX_FMT_SGBRG12P = v4l2_fourcc ''pGCC''"
| "videodev2_h V4L2_PIX_FMT_SGRBG12P = v4l2_fourcc ''pgCC''"
| "videodev2_h V4L2_PIX_FMT_SRGGB12P = v4l2_fourcc ''pRCC''"
| "videodev2_h V4L2_PIX_FMT_SBGGR16 = v4l2_fourcc ''BYR2''"
| "videodev2_h V4L2_PIX_FMT_SGBRG16 = v4l2_fourcc ''GB16''"
| "videodev2_h V4L2_PIX_FMT_SGRBG16 = v4l2_fourcc ''GR16''"
| "videodev2_h V4L2_PIX_FMT_SRGGB16 = v4l2_fourcc ''RG16''"
| "videodev2_h V4L2_PIX_FMT_MJPEG = v4l2_fourcc ''MJPG''"

section \<open>Threads, message delivery and semaphores\<close>

text \<open>
  activatePack hands its work to the receiver's thread through Object::postMessage and
  waits for it with Semaphore::acquire.  These, the run loop of Thread, the handling of
  an InvokeMessage by its receiver and the concrete bound methods are defined in other
  files of the library.  This section models them from the specification of the
  library, as a system of threads that take steps one at a time, in any order.
\<close>

text \<open>
  Modelled from the spec: the argument pack of a bound method (bound\_method.h), "a copy
  of call arguments, and a return-value slot".
\<close>

record ('a, 'r) BoundMethodPack =
  args :: 'a
  ret :: "'r option"

text \<open>
  Modelled from the spec: a concrete bound method (bound\_method.h), which adds to
  BoundMethodBase the "callable entry point" that invokePack applies to the arguments of
  the pack.
\<close>

record ('a, 'r) BoundMethodMember = BoundMethodBase +
  func :: "'a \<Rightarrow> 'r"

text \<open>
  Modelled from the spec: what a thread is doing.  It waits in its run loop, or it
  executes the remaining calls of a function and then goes on with what follows, or it
  has returned from the function under observation with the given value.
\<close>

datatype 'm activity =
    EventLoop
  | Executing "'m action list" "'m activity"
  | Returned bool

text \<open>
  Modelled from the spec: the state shared by the threads.  Every thread has an activity
  and a FIFO queue of messages, each tied to its target object; a semaphore is the number
  of acquisitions available; every object has the thread it is affine to.  The trace
  records every call executed and the thread that executed it.
\<close>

record ('a, 'r) system =
  activity :: "Thread \<Rightarrow> ('a, 'r) BoundMethodMember activity"
  messages :: "Thread \<Rightarrow> (Object \<times> ('a, 'r) BoundMethodMember InvokeMessage) list"
  available :: "Semaphore \<Rightarrow> nat"
  packs :: "BoundMethodPackBase \<Rightarrow> ('a, 'r) BoundMethodPack"
  affinity :: "Object \<Rightarrow> Thread"
  trace :: "(Thread \<times> ('a, 'r) BoundMethodMember action) list"

text \<open>
  Modelled from the spec: Semaphore::acquire (semaphore.cpp), of the "counting
  wait/signal primitive used to block a caller until a cross-thread call completes":
  the call cannot proceed while nothing is available.  Every other call can.
\<close>

fun enabled :: "('a, 'r) system \<Rightarrow> ('a, 'r) BoundMethodMember action \<Rightarrow> bool" where
  "enabled s (SemaphoreAcquire sem) = (0 < available s sem)"
| "enabled s a = True"

text \<open>
  Modelled from the spec: the effect of each call.  invokePack (bound\_method.h) applies
  the callable to the arguments of the pack and stores the result in its return slot;
  Object::postMessage (object.cpp) is an "enqueue onto the owning thread's queue"; a
  constructed semaphore has nothing available, acquire takes one and release gives one.
\<close>

fun perform ::
  "('a, 'r) BoundMethodMember action \<Rightarrow> ('a, 'r) system \<Rightarrow> ('a, 'r) system" where
  "perform (InvokePack m p) s =
     s\<lparr>packs := (packs s)(p := (packs s p)\<lparr>ret := Some (func m (args (packs s p)))\<rparr>)\<rparr>"
| "perform (DeleteMethod m) s = s"
| "perform (PostMessage ob msg) s =
     s\<lparr>messages := (messages s)(affinity s ob := messages s (affinity s ob) @ [(ob, msg)])\<rparr>"
| "perform (SemaphoreConstruct sem) s = s\<lparr>available := (available s)(sem := 0)\<rparr>"
| "perform (SemaphoreAcquire sem) s =
     s\<lparr>available := (available s)(sem := available s sem - 1)\<rparr>"
| "perform (SemaphoreRelease sem) s =
     s\<lparr>available := (available s)(sem := available s sem + 1)\<rparr>"
| "perform (Log m) s = s"

text \<open>
  Modelled from the spec: the handling of an InvokeMessage by the run loop (object.cpp,
  message.cpp), which "invokes the carried BoundMethod and releases its attached
  Semaphore, if present, immediately after the call returns.  A queued one-shot
  BoundMethod wrapper is freed after execution."
\<close>

definition invokeMessage :: "'m InvokeMessage \<Rightarrow> 'm action list" where
  "invokeMessage msg =
     InvokePack (boundMethod msg) (pack msg)
     # (case semaphore msg of None \<Rightarrow> [] | Some sem \<Rightarrow> [SemaphoreRelease sem])
     @ (if deleteMethod msg then [DeleteMethod (boundMethod msg)] else [])"

text \<open>
  Modelled from the spec: the activity of a thread that has the calls \<open>as\<close> left to
  execute before it goes on with \<open>k\<close>.
\<close>

fun resume :: "'m action list \<Rightarrow> 'm activity \<Rightarrow> 'm activity" where
  "resume [] k = k"
| "resume as k = Executing as k"

text \<open>
  Modelled from the spec: one step of thread \<open>t\<close> (thread.cpp), which is \<open>None\<close> when the
  thread cannot move.  A thread that executes a function performs its next call, if the
  call can proceed.  A thread in its run loop takes the first message of its queue and
  handles it.  A thread blocked in a call does not run its loop.
\<close>

definition step :: "Thread \<Rightarrow> ('a, 'r) system \<Rightarrow> ('a, 'r) system option" where
  "step t s =
     (case activity s t of
        Executing [] k \<Rightarrow> Some (s\<lparr>activity := (activity s)(t := k)\<rparr>)
      | Executing (a # as) k \<Rightarrow>
          if enabled s a
          then Some ((perform a s)\<lparr>activity := (activity s)(t := resume as k),
                                     trace := trace s @ [(t, a)]\<rparr>)
          else None
      | EventLoop \<Rightarrow>
          (case messages s t of
             [] \<Rightarrow> None
           | (ob, msg) # rest \<Rightarrow>
               Some (s\<lparr>messages := (messages s)(t := rest),
                       activity := (activity s)(t := Executing (invokeMessage msg) EventLoop)\<rparr>))
      | Returned b \<Rightarrow> None)"

text \<open>
  Modelled from the spec: a run of the system under a schedule, the list of the threads
  that take the successive steps.  The schedules stand for the interleavings of the
  threads.
\<close>

fun run :: "Thread list \<Rightarrow> ('a, 'r) system \<Rightarrow> ('a, 'r) system option" where
  "run [] s = Some s"
| "run (t # ts) s = (case step t s of None \<Rightarrow> None | Some s' \<Rightarrow> run ts s')"

text \<open>
  Modelled from the spec: thread \<open>t\<close> calls a function that makes the calls \<open>fst f\<close> and
  then returns \<open>snd f\<close>.
\<close>

definition call ::
  "Thread \<Rightarrow> ('a, 'r) BoundMethodMember action list \<times> bool \<Rightarrow> ('a, 'r) system \<Rightarrow>
   ('a, 'r) system" where
  "call t f s = s\<lparr>activity := (activity s)(t := resume (fst f) (Returned (snd f)))\<rparr>"

subsection \<open>Notions used to state the properties of a blocking call\<close>

text \<open>
  A call involves the semaphore \<open>sem\<close> and the pack \<open>p\<close> when it operates on the
  semaphore, invokes the pack, or posts a message that carries one of them.
\<close>

fun involves :: "Semaphore \<Rightarrow> BoundMethodPackBase \<Rightarrow> 'm action \<Rightarrow> bool" where
  "involves sem p (InvokePack m q) = (q = p)"
| "involves sem p (DeleteMethod m) = False"
| "involves sem p (PostMessage ob msg) = (pack msg = p \<or> semaphore msg = Some sem)"
| "involves sem p (SemaphoreConstruct x) = (x = sem)"
| "involves sem p (SemaphoreAcquire x) = (x = sem)"
| "involves sem p (SemaphoreRelease x) = (x = sem)"
| "involves sem p (Log l) = False"

text \<open>An activity or a queue is foreign to \<open>sem\<close> and \<open>p\<close> when nothing in it involves them.\<close>

fun foreign :: "Semaphore \<Rightarrow> BoundMethodPackBase \<Rightarrow> 'm activity \<Rightarrow> bool" where
  "foreign sem p EventLoop = True"
| "foreign sem p (Executing as k) = (\<not> list_ex (involves sem p) as \<and> foreign sem p k)"
| "foreign sem p (Returned b) = True"

definition foreign_queue ::
  "Semaphore \<Rightarrow> BoundMethodPackBase \<Rightarrow> (Object \<times> 'm InvokeMessage) list \<Rightarrow> bool" where
  "foreign_queue sem p q =
     (\<not> list_ex (\<lambda>om. pack (snd om) = p \<or> semaphore (snd om) = Some sem) q)"

text \<open>
  The semaphore is a local variable of the call and the pack was made for the call: when
  thread \<open>A\<close> makes the call, no other thread and no queued message refers to them.
\<close>

definition fresh :: "Thread \<Rightarrow> Semaphore \<Rightarrow> BoundMethodPackBase \<Rightarrow> ('a, 'r) system \<Rightarrow> bool" where
  "fresh A sem p s =
     ((\<forall>t. t \<noteq> A \<longrightarrow> foreign sem p (activity s t)) \<and>
      (\<forall>t. foreign_queue sem p (messages s t)))"

text \<open>The calls that involve \<open>sem\<close> and \<open>p\<close> among those traced after the first \<open>n\<close>.\<close>

definition events ::
  "nat \<Rightarrow> Semaphore \<Rightarrow> BoundMethodPackBase \<Rightarrow> ('a, 'r) system \<Rightarrow>
   (Thread \<times> ('a, 'r) BoundMethodMember action) list" where
  "events n sem p s = filter (\<lambda>e. involves sem p (snd e)) (drop n (trace s))"

text \<open>The message of a blocking call, and the calls of a completed blocking call in order.\<close>

definition blocking_message ::
  "Semaphore \<Rightarrow> 'm \<Rightarrow> BoundMethodPackBase \<Rightarrow> bool \<Rightarrow> 'm InvokeMessage" where
  "blocking_message sem m p del =
     \<lparr>boundMethod = m, pack = p, semaphore = Some sem, deleteMethod = del\<rparr>"

definition blocking_events ::
  "Thread \<Rightarrow> Semaphore \<Rightarrow> ('a, 'r) BoundMethodMember \<Rightarrow> BoundMethodPackBase \<Rightarrow> bool \<Rightarrow>
   ('a, 'r) system \<Rightarrow> (Thread \<times> ('a, 'r) BoundMethodMember action) list" where
  "blocking_events A sem m p del s0 =
     [(A, SemaphoreConstruct sem),
      (A, PostMessage (object m) (blocking_message sem m p del)),
      (affinity s0 (object m), InvokePack m p),
      (affinity s0 (object m), SemaphoreRelease sem),
      (A, SemaphoreAcquire sem)]"

text \<open>
  What stays true of the rest of the system during the call of thread \<open>A\<close> to an object of
  thread \<open>B\<close>: objects keep their threads, the arguments of the pack are not touched, and
  the other threads and queues stay foreign to the semaphore and the pack.
\<close>

definition frame ::
  "Thread \<Rightarrow> Thread \<Rightarrow> Semaphore \<Rightarrow> BoundMethodPackBase \<Rightarrow> ('a, 'r) system \<Rightarrow>
   ('a, 'r) system \<Rightarrow> bool" where
  "frame A B sem p s0 s =
     (affinity s = affinity s0 \<and> args (packs s p) = args (packs s0 p) \<and>
      length (trace s0) \<le> length (trace s) \<and>
      (\<forall>t. t \<noteq> A \<and> t \<noteq> B \<longrightarrow> foreign sem p (activity s t)) \<and>
      (\<forall>t. t \<noteq> B \<longrightarrow> foreign_queue sem p (messages s t)))"

text \<open>
  The phases of a blocking call to an object of another thread, and the states of each
  phase: the caller constructs the semaphore, posts the message and waits; the receiver's
  thread finds the message in its queue, invokes the method and releases the semaphore;
  the caller returns.
\<close>

datatype phase = Constructing | Posting | Pending | Dispatched | Invoked | Released | Completed

fun next_phase :: "phase \<Rightarrow> phase" where
  "next_phase Constructing = Posting"
| "next_phase Posting = Pending"
| "next_phase Pending = Dispatched"
| "next_phase Dispatched = Invoked"
| "next_phase Invoked = Released"
| "next_phase Released = Completed"
| "next_phase Completed = Completed"

definition at_phase ::
  "phase \<Rightarrow> Thread \<Rightarrow> Semaphore \<Rightarrow> ('a, 'r) BoundMethodMember \<Rightarrow> BoundMethodPackBase \<Rightarrow> bool \<Rightarrow>
   ('a, 'r) system \<Rightarrow> ('a, 'r) system \<Rightarrow> bool" where
  "at_phase ph A sem m p del s0 s =
     (let B = affinity s0 (object m);
          msg = blocking_message sem m p del;
          evs = events (length (trace s0)) sem p s;
          all = blocking_events A sem m p del s0;
          v = func m (args (packs s0 p));
          dels = (if del then [DeleteMethod m] else [])
      in frame A B sem p s0 s \<and>
         (case ph of
            Constructing \<Rightarrow>
              activity s A =
                Executing [SemaphoreConstruct sem, PostMessage (object m) msg, SemaphoreAcquire sem]
                  (Returned True) \<and>
              foreign sem p (activity s B) \<and> foreign_queue sem p (messages s B) \<and>
              evs = take 0 all
          | Posting \<Rightarrow>
              activity s A =
                Executing [PostMessage (object m) msg, SemaphoreAcquire sem] (Returned True) \<and>
              foreign sem p (activity s B) \<and> foreign_queue sem p (messages s B) \<and>
              available s sem = 0 \<and> evs = take 1 all
          | Pending \<Rightarrow>
              activity s A = Executing [SemaphoreAcquire sem] (Returned True) \<and>
              foreign sem p (activity s B) \<and>
              (\<exists>before after. messages s B = before @ (object m, msg) # after \<and>
                 foreign_queue sem p before \<and> foreign_queue sem p after) \<and>
              available s sem = 0 \<and> evs = take 2 all
          | Dispatched \<Rightarrow>
              activity s A = Executing [SemaphoreAcquire sem] (Returned True) \<and>
              activity s B = Executing (InvokePack m p # SemaphoreRelease sem # dels) EventLoop \<and>
              foreign_queue sem p (messages s B) \<and>
              available s sem = 0 \<and> evs = take 2 all
          | Invoked \<Rightarrow>
              activity s A = Executing [SemaphoreAcquire sem] (Returned True) \<and>
              activity s B = Executing (SemaphoreRelease sem # dels) EventLoop \<and>
              foreign_queue sem p (messages s B) \<and>
              available s sem = 0 \<and> ret (packs s p) = Some v \<and> evs = take 3 all
          | Released \<Rightarrow>
              activity s A = Executing [SemaphoreAcquire sem] (Returned True) \<and>
              foreign sem p (activity s B) \<and> foreign_queue sem p (messages s B) \<and>
              available s sem = 1 \<and> ret (packs s p) = Some v \<and> evs = take 4 all
          | Completed \<Rightarrow>
              activity s A = Returned True \<and>
              foreign sem p (activity s B) \<and> foreign_queue sem p (messages s B) \<and>
              available s sem = 0 \<and> ret (packs s p) = Some v \<and> evs = all))"

text \<open>
  The states of a blocking call made on the receiver's own thread, after \<open>n\<close> of the
  caller's calls: the caller is left waiting with its message in its own queue.
\<close>

definition waiting ::
  "nat \<Rightarrow> Thread \<Rightarrow> Semaphore \<Rightarrow> ('a, 'r) BoundMethodMember \<Rightarrow> BoundMethodPackBase \<Rightarrow> bool \<Rightarrow>
   ('a, 'r) system \<Rightarrow> ('a, 'r) system \<Rightarrow> bool" where
  "waiting n A sem m p del s0 s =
     (let msg = blocking_message sem m p del;
          own = [SemaphoreConstruct sem, PostMessage (object m) msg, SemaphoreAcquire sem]
      in frame A A sem p s0 s \<and> n \<le> 2 \<and>
         activity s A = Executing (drop n own) (Returned True) \<and>
         (0 < n \<longrightarrow> available s sem = 0) \<and>
         (if n < 2 then foreign_queue sem p (messages s A)
          else \<exists>before after. messages s A = before @ (object m, msg) # after \<and>
                 foreign_queue sem p before \<and> foreign_queue sem p after))"

text \<open>
  A thread keeps its loop running when it waits in its run loop or executes calls, none
  of them a wait for a semaphore, after which it is back in its loop.  The number of
  steps it then needs to be back in its loop, and the number of steps its loop needs for
  the messages queued before the message \<open>x\<close>.
\<close>

fun is_acquire :: "'m action \<Rightarrow> bool" where
  "is_acquire (SemaphoreAcquire sem) = True"
| "is_acquire a = False"

fun looping :: "'m activity \<Rightarrow> bool" where
  "looping EventLoop = True"
| "looping (Executing as k) = (\<not> list_ex is_acquire as \<and> looping k)"
| "looping (Returned b) = False"

fun remaining :: "'m activity \<Rightarrow> nat" where
  "remaining EventLoop = 0"
| "remaining (Executing as k) = max 1 (length as) + remaining k"
| "remaining (Returned b) = 0"

definition backlog ::
  "Object \<times> 'm InvokeMessage \<Rightarrow> (Object \<times> 'm InvokeMessage) list \<Rightarrow> nat" where
  "backlog x q =
     sum_list (map (\<lambda>y. Suc (length (invokeMessage (snd y)))) (takeWhile (\<lambda>y. y \<noteq> x) q))"

subsection \<open>An example system\<close>

text \<open>
  A system at rest, in which every object belongs to thread 2, and a method bound with a
  blocking connection to object 7 that adds one to its argument.  The pack holds the
  argument 20.
\<close>

definition example_system :: "(nat, nat) system" where
  "example_system =
     \<lparr>activity = (\<lambda>t. EventLoop), messages = (\<lambda>t. []), available = (\<lambda>sem. 5),
      packs = (\<lambda>p. \<lparr>args = 20, ret = None\<rparr>), affinity = (\<lambda>ob. 2), trace = []\<rparr>"

definition example_method :: "(nat, nat) BoundMethodMember" where
  "example_method =
     \<lparr>object = 7, connectionType = ConnectionTypeBlocking, func = (\<lambda>x. x + 1)\<rparr>"

section \<open>Signals\<close>

text \<open>
  Signal is defined in signal.h; its emit function is the caller of activatePack.  This
  section models it from the specification of the library, in the system of threads of
  the previous section.
\<close>

text \<open>
  Modelled from the spec: a Signal (signal.h), an "ordered sequence of (receiver
  weak-reference, BoundMethod, ConnectionType)" in insertion order.  A bound method
  holds its receiver and its connection type.
\<close>

type_synonym ('a, 'r) Signal = "('a, 'r) BoundMethodMember list"

text \<open>
  Modelled from the spec: the operations that change a signal.  "connect appends a
  connection entry; duplicate connects are allowed"; "disconnect removes matching
  entries; disconnecting a non-existent pair is a no-op".  The entries that a disconnect
  matches, those of a receiver or of a receiver and a slot, are given as a predicate.
\<close>

datatype ('a, 'r) signal_op =
    Connect "('a, 'r) BoundMethodMember"
  | Disconnect "('a, 'r) BoundMethodMember \<Rightarrow> bool"

fun apply_op :: "('a, 'r) Signal \<Rightarrow> ('a, 'r) signal_op \<Rightarrow> ('a, 'r) Signal" where
  "apply_op slots (Connect m) = slots @ [m]"
| "apply_op slots (Disconnect matches) = filter (\<lambda>m. \<not> matches m) slots"

text \<open>
  Modelled from the spec: a signal in the system of threads, with its current list of
  connections.
\<close>

record ('a, 'r) signal_system =
  threads :: "('a, 'r) system"
  connections :: "('a, 'r) Signal"




text \<open>
  Modelled from the spec: what happens while an emission is in progress.  A thread takes
  a step, or a connect or disconnect operation reaches the signal, from a slot or from
  elsewhere.  A run is \<open>None\<close> when one of its steps cannot be taken.
\<close>

datatype ('a, 'r) signal_event =
    Step Thread
  | Operation "('a, 'r) signal_op"

fun signal_step ::
  "('a, 'r) signal_event \<Rightarrow> ('a, 'r) signal_system \<Rightarrow> ('a, 'r) signal_system option" where
  "signal_step (Step t) ss =
     (case step t (threads ss) of None \<Rightarrow> None | Some s' \<Rightarrow> Some (ss\<lparr>threads := s'\<rparr>))"
| "signal_step (Operation op) ss = Some (ss\<lparr>connections := apply_op (connections ss) op\<rparr>)"

fun signal_run ::
  "('a, 'r) signal_event list \<Rightarrow> ('a, 'r) signal_system \<Rightarrow> ('a, 'r) signal_system option" where
  "signal_run [] ss = Some ss"
| "signal_run (ev # evs) ss =
     (case signal_step ev ss of None \<Rightarrow> None | Some ss' \<Rightarrow> signal_run evs ss')"







subsection \<open>Example signals\<close>



section \<open>The threaded event test (event-thread.cpp)\<close>

text \<open>
  The test creates an EventHandler, an object that owns a pipe and an EventNotifier for
  the read end of the pipe.  The members \<open>notified_\<close>, \<open>data_\<close> and \<open>size_\<close> of the
  handler are the fields of the record.
\<close>

record EventHandler =
  notified :: bool
  data :: "char list"
  size :: int

text \<open>
  Modelled from the spec: the state that the test acts on.  The pipe holds the bytes
  written to its write end and not yet read from its read end.  The handler has the
  thread it is affine to, and "an Object's affinity and its registered notifiers always
  name the same Thread": the notifier of the handler is registered with the dispatcher of
  that thread.  The history records the thread of every activation of the notifier's
  callback.
\<close>

record event_state =
  pipe :: "char list"
  handler :: EventHandler
  handler_thread :: Thread
  activations :: "Thread list"

text \<open>
  The constructor of EventHandler, run on thread \<open>t\<close>: the pipe is empty, \<open>notified_\<close> is
  false, and \<open>data_\<close> and \<open>size_\<close> are not initialised (they have the values \<open>d\<close> and
  \<open>z\<close>).  The object is affine to the thread that creates it.
\<close>

definition EventHandler_new :: "Thread \<Rightarrow> char list \<Rightarrow> int \<Rightarrow> event_state" where
  "EventHandler_new t d z =
     \<lparr>pipe = [], handler = \<lparr>notified = False, data = d, size = z\<rparr>,
      handler_thread = t, activations = []\<rparr>"

text \<open>
  EventHandler::notify clears \<open>data_\<close> and \<open>size_\<close> and writes the four bytes of "H2G2"
  to the write end of the pipe.
\<close>

definition notify :: "event_state \<Rightarrow> event_state" where
  "notify w =
     w\<lparr>handler := (handler w)\<lparr>data := replicate 16 (CHR 0x00), size := 0\<rparr>,
       pipe := pipe w @ ''H2G2''\<rparr>"

text \<open>
  The system call \<open>read\<close> on the read end of the pipe, whose write end stays open: the
  result and the bytes read.  From a pipe that holds bytes it takes at most \<open>count\<close> of
  them and returns their number.  On an empty pipe the call waits: it does not return,
  which is \<open>None\<close>, unless a signal interrupts it, and then it returns -1 and no bytes.
\<close>

definition read :: "bool \<Rightarrow> char list \<Rightarrow> nat \<Rightarrow> (int \<times> char list) option" where
  "read interrupted buf count =
     (if buf = [] then (if interrupted then Some (- 1, []) else None)
      else Some (int (length (take count buf)), take count buf))"

text \<open>
  EventHandler::readReady, run on thread \<open>t\<close>: it reads at most 16 bytes from the pipe to
  the start of \<open>data_\<close>, stores the result of \<open>read\<close> in \<open>size_\<close> and sets \<open>notified_\<close>.
  It does not return when \<open>read\<close> does not.
\<close>

definition readReady :: "Thread \<Rightarrow> bool \<Rightarrow> event_state \<Rightarrow> event_state option" where
  "readReady t interrupted w =
     (case read interrupted (pipe w) 16 of
        None \<Rightarrow> None
      | Some (n, bytes) \<Rightarrow>
          Some (w\<lparr>handler := (handler w)\<lparr>data := bytes @ drop (length bytes) (data (handler w)),
                                         size := n, notified := True\<rparr>,
                  pipe := drop (length bytes) (pipe w),
                  activations := activations w @ [t]\<rparr>))"

text \<open>
  Modelled from the spec: Object::moveToThread (object.cpp), which "reassigns affinity
  such that, from the moment the call returns, all of the object's notifier
  registrations route to the new thread".
\<close>

definition moveToThread :: "Thread \<Rightarrow> event_state \<Rightarrow> event_state" where
  "moveToThread t w = w\<lparr>handler_thread := t\<rparr>"

text \<open>
  Modelled from the spec: EventDispatcher::poll on thread \<open>t\<close> (event\_dispatcher\_poll.cpp),
  which waits for "any registered fd becoming ready per its interest mask" and "on wake
  invokes every ready notifier's callback synchronously".  The read end of a pipe is
  ready while the pipe holds bytes.
\<close>

definition poll :: "Thread \<Rightarrow> bool \<Rightarrow> event_state \<Rightarrow> event_state option" where
  "poll t interrupted w =
     (if handler_thread w = t \<and> pipe w \<noteq> [] then readReady t interrupted w else Some w)"

text \<open>
  Modelled from the spec: \<open>n\<close> iterations of the run loop of thread \<open>t\<close> (thread.cpp),
  each of which drains the message queues (there are no messages in this test) and
  polls the dispatcher.
\<close>

fun loop :: "nat \<Rightarrow> Thread \<Rightarrow> bool \<Rightarrow> event_state \<Rightarrow> event_state option" where
  "loop 0 t interrupted w = Some w"
| "loop (Suc n) t interrupted w =
     (case poll t interrupted w of None \<Rightarrow> None | Some w' \<Rightarrow> loop n t interrupted w')"

text \<open>
  EventThreadTest::run on thread \<open>main\<close>, where no run loop is running.  The test starts
  the new thread first, then creates the handler, calls notify and moves the handler to
  the new thread, and then sleeps before it stops the thread.  The loop of the new thread
  makes \<open>i\<close> iterations before notify, \<open>j\<close> iterations between notify and moveToThread,
  and \<open>n\<close> iterations after moveToThread before it exits.
\<close>

datatype TestStatus = TestPass | TestFail

definition EventThreadTest_moved ::
  "Thread \<Rightarrow> Thread \<Rightarrow> bool \<Rightarrow> char list \<Rightarrow> int \<Rightarrow> nat \<Rightarrow> nat \<Rightarrow> event_state option" where
  "EventThreadTest_moved main thread interrupted d z i j =
     (case loop i thread interrupted (EventHandler_new main d z) of
        None \<Rightarrow> None
      | Some w \<Rightarrow>
          (case loop j thread interrupted (notify w) of
             None \<Rightarrow> None
           | Some w' \<Rightarrow> Some (moveToThread thread w')))"

definition EventThreadTest_state ::
  "Thread \<Rightarrow> Thread \<Rightarrow> bool \<Rightarrow> char list \<Rightarrow> int \<Rightarrow> nat \<Rightarrow> nat \<Rightarrow> nat \<Rightarrow> event_state option" where
  "EventThreadTest_state main thread interrupted d z i j n =
     (case EventThreadTest_moved main thread interrupted d z i j of
        None \<Rightarrow> None
      | Some w \<Rightarrow> loop n thread interrupted w)"

definition EventThreadTest_run ::
  "Thread \<Rightarrow> Thread \<Rightarrow> bool \<Rightarrow> char list \<Rightarrow> int \<Rightarrow> nat \<Rightarrow> nat \<Rightarrow> nat \<Rightarrow> TestStatus option" where
  "EventThreadTest_run main thread interrupted d z i j n =
     (case EventThreadTest_state main thread interrupted d z i j n of
        None \<Rightarrow> None
      | Some w \<Rightarrow> Some (if \<not> notified (handler w) then TestFail else TestPass))"

section \<open>Properties of V4L2PixelFormat::toString\<close>

lemma replace_unprintable_4:
  "replace_unprintable 4 0 [a, b, c, d, e, f, g, h] =
     [printable_or_dot a, printable_or_dot b, printable_or_dot c, printable_or_dot d,
      e, f, g, h]"
  by (simp add: eval_nat_numeral printable_or_dot_def)

lemma printable_or_dot_not_NUL: "printable_or_dot c \<noteq> NUL"
  by (auto simp: printable_or_dot_def NUL_def isprint_def)

lemma strlen_4:
  "a \<noteq> NUL \<Longrightarrow> b \<noteq> NUL \<Longrightarrow> c \<noteq> NUL \<Longrightarrow> d \<noteq> NUL \<Longrightarrow>
   strlen ([a, b, c, d, NUL] @ rest) = Some 4"
  by (simp add: strlen_def)

lemma strlen_7:
  "a \<noteq> NUL \<Longrightarrow> b \<noteq> NUL \<Longrightarrow> c \<noteq> NUL \<Longrightarrow> d \<noteq> NUL \<Longrightarrow>
   strlen [a, b, c, d, CHR ''-'', CHR ''B'', CHR ''E'', NUL] = Some 7"
  by (simp add: strlen_def NUL_def)

lemma and_7f: "(x :: uint32_t) AND 0x7f = take_bit 7 x"
proof -
  have "(0x7f :: uint32_t) = mask 7"
    by (simp add: mask_eq_exp_minus_1)
  then show ?thesis
    by (simp only: take_bit_eq_mask)
qed

lemma unat_masked:
  "unat ((x :: uint32_t) AND 0x7f) = unat (take_bit 7 (ucast x :: 8 word))"
proof -
  have "unat (take_bit 7 (ucast x :: 8 word)) = unat (take_bit 7 x)"
    by (simp add: unsigned_take_bit_eq unsigned_ucast_eq min_def)
  then show ?thesis
    by (simp only: and_7f)
qed

lemma masked_byte:
  "static_cast_char (drop_bit n w AND 0x7f) =
     char_of (unat (take_bit 7 (ucast (drop_bit n w) :: 8 word)))"
  unfolding static_cast_char_def
  by (simp only: unat_masked)

lemma masked_byte_0:
  "static_cast_char (w AND 0x7f) = char_of (unat (take_bit 7 (ucast w :: 8 word)))"
  using masked_byte [of 0 w] by simp

lemma be_bit: "(w AND push_bit 31 1 \<noteq> 0) = bit (w :: uint32_t) 31"
  by (metis bit_iff_and_push_bit_not_eq_0)

lemma be_bit_numeral: "(w AND 2147483648 \<noteq> 0) = bit (w :: uint32_t) 31"
  using be_bit [of w] by simp

lemma toString_nonzero:
  assumes "fourcc v \<noteq> 0"
  shows "toString v = Some (toString_spec v)"
proof -
  let ?c = "\<lambda>i. printable_or_dot (char_of (unat (take_bit 7 (byte_of i (fourcc v)))))"
  have ss: "replace_unprintable 4 0
              [static_cast_char (fourcc v AND 0x7f),
               static_cast_char (drop_bit 8 (fourcc v) AND 0x7f),
               static_cast_char (drop_bit 16 (fourcc v) AND 0x7f),
               static_cast_char (drop_bit 24 (fourcc v) AND 0x7f),
               NUL, NUL, NUL, NUL] =
            [?c 0, ?c 1, ?c 2, ?c 3, NUL, NUL, NUL, NUL]"
    by (simp add: replace_unprintable_4 masked_byte_0 masked_byte byte_of_def)
  have len4: "strlen [?c 0, ?c 1, ?c 2, ?c 3, NUL, NUL, NUL, NUL] = Some 4"
    using strlen_4 [of "?c 0" "?c 1" "?c 2" "?c 3" "[NUL, NUL, NUL]"]
    by (simp add: printable_or_dot_not_NUL)
  have len7: "strlen [?c 0, ?c 1, ?c 2, ?c 3, CHR ''-'', CHR ''B'', CHR ''E'', NUL] = Some 7"
    by (rule strlen_7) (rule printable_or_dot_not_NUL)+
  show ?thesis
  proof (cases "bit (fourcc v) 31")
    case True
    then show ?thesis
      using assms
      by (simp add: toString_def toString_spec_def ss be_bit_numeral strcat_def
          std_string_def len4 len7 Let_def del: One_nat_def)
  next
    case False
    then show ?thesis
      using assms
      by (simp add: toString_def toString_spec_def ss be_bit_numeral std_string_def len4
          Let_def del: One_nat_def)
  qed
qed

lemma toString_spec_length:
  "fourcc v \<noteq> 0 \<Longrightarrow> length (toString_spec v) = (if bit (fourcc v) 31 then 7 else 4)"
  by (simp add: toString_spec_def)

text \<open>
  C8.  For every V4L2PixelFormat, toString() returns (never overrunning its eight-byte
  array) the string of the description: "<INVALID>" for the FourCC 0, and otherwise the
  four characters of bytes 0 to 3 of the FourCC, each masked to seven bits and replaced
  by a dot when it is not printable, followed by "-BE" exactly when bit 31 is set.  The
  result is "<INVALID>" if and only if the FourCC is 0.
\<close>

theorem toString_correct:
  "toString v = Some (toString_spec v) \<and>
   (toString v = Some ''<INVALID>'' \<longleftrightarrow> fourcc v = 0)"
proof (cases "fourcc v = 0")
  case True
  then show ?thesis
    by (simp add: toString_def toString_spec_def)
next
  case False
  have "length (toString_spec v) \<noteq> length ''<INVALID>''"
    using False by (simp add: toString_spec_length)
  then have "toString_spec v \<noteq> ''<INVALID>''"
    by metis
  then show ?thesis
    using False by (simp add: toString_nonzero)
qed

theorem toString_correct_witness:
  "toString \<lparr>fourcc = 0xD6595559\<rparr> = Some ''YUYV-BE'' \<and>
   toString \<lparr>fourcc = 0x00001F41\<rparr> = Some ''A...''"
proof -
  have "toString_spec \<lparr>fourcc = 0xD6595559\<rparr> = ''YUYV-BE''"
    by code_simp
  moreover have "toString_spec \<lparr>fourcc = 0x00001F41\<rparr> = ''A...''"
    by code_simp
  ultimately show ?thesis
    using toString_correct [of "\<lparr>fourcc = 0xD6595559\<rparr>"]
      toString_correct [of "\<lparr>fourcc = 0x00001F41\<rparr>"]
    by simp
qed

section \<open>Properties of V4L2PixelFormat::toPixelFormat\<close>

lemma foldl_std_map_insert:
  "foldl std_map_insert m xs k =
     (case m k of Some v \<Rightarrow> Some v | None \<Rightarrow> map_option snd (find (\<lambda>kv. fst kv = k) xs))"
proof (induction xs arbitrary: m)
  case Nil
  then show ?case by (simp split: option.splits)
next
  case (Cons x xs)
  then show ?case
    by (auto simp: std_map_insert_def split: option.splits)
qed

lemma std_map_find: "std_map xs k = map_option snd (find (\<lambda>kv. fst kv = k) xs)"
  by (simp add: std_map_def foldl_std_map_insert)

lemma find_map_list: "find P (map g xs) = map_option g (find (\<lambda>x. P (g x)) xs)"
  by (induction xs) auto

lemma find_distinct:
  "distinct (map g xs) \<Longrightarrow> x \<in> set xs \<Longrightarrow> find (\<lambda>y. g y = g x) xs = Some x"
  by (induction xs) auto

lemma V4L2PixelFormat_eq: "(\<lparr>fourcc = w\<rparr> = (v :: V4L2PixelFormat)) = (w = fourcc v)"
  by (cases v) auto

lemma vpf2pf_find:
  "vpf2pf v4l2 fmt v =
     map_option (\<lambda>(k, f, d). \<lparr>format = fmt f, description = d\<rparr>)
       (find (\<lambda>(k, f, d). v4l2 k = fourcc v) vpf2pf_entries)"
  by (simp add: vpf2pf_def std_map_find find_map_list case_prod_unfold V4L2PixelFormat_eq
      option.map_comp comp_def)

lemma toString_Some: "toString v = Some (toString_spec v)"
  using toString_nonzero [of v]
  by (cases "fourcc v = 0") (simp_all add: toString_def toString_spec_def)

lemma toPixelFormat_find:
  "toPixelFormat v4l2 fmt dflt v =
     (case find (\<lambda>(k, f, d). v4l2 k = fourcc v) vpf2pf_entries of
        None \<Rightarrow> Some (dflt, [unsupported_warning (toString_spec v)])
      | Some (k, f, d) \<Rightarrow> Some (fmt f, []))"
  by (simp add: toPixelFormat_def vpf2pf_find toString_Some split: option.splits)

lemma toPixelFormat_unlisted:
  assumes "fourcc v \<notin> (\<lambda>e. v4l2 (fst e)) ` set vpf2pf_entries"
  shows "toPixelFormat v4l2 fmt dflt v = Some (dflt, [unsupported_warning (toString_spec v)])"
proof -
  have "find (\<lambda>(k, f, d). v4l2 k = fourcc v) vpf2pf_entries = None"
    using assms by (force simp: find_None_iff)
  then show ?thesis
    by (simp add: toPixelFormat_find)
qed

lemma toPixelFormat_listed:
  assumes "distinct (map (\<lambda>e. v4l2 (fst e)) vpf2pf_entries)"
    and "(k, f, d) \<in> set vpf2pf_entries"
  shows "toPixelFormat v4l2 fmt dflt \<lparr>fourcc = v4l2 k\<rparr> = Some (fmt f, [])"
proof -
  have "find (\<lambda>e. v4l2 (fst e) = v4l2 (fst (k, f, d))) vpf2pf_entries = Some (k, f, d)"
    using assms by (rule find_distinct)
  then have "find (\<lambda>(k', f', d'). v4l2 k' = v4l2 k) vpf2pf_entries = Some (k, f, d)"
    by (simp add: case_prod_unfold)
  then show ?thesis
    by (simp add: toPixelFormat_find)
qed

lemma distinct_videodev2_h: "distinct (map (\<lambda>e. videodev2_h (fst e)) vpf2pf_entries)"
  unfolding vpf2pf_entries_def by (simp add: v4l2_fourcc_def)

text \<open>
  C9.  toPixelFormat returns a value for every V4L2PixelFormat.  When the FourCC is the
  key of no entry of vpf2pf it returns the default-constructed PixelFormat (and logs a
  warning that names the format); when it is the key of an entry it returns the
  PixelFormat of that entry (the first one with that FourCC, which is the only one when
  the macros have distinct values).  The pixel format and the table are only read.
\<close>

theorem toPixelFormat_correct:
  "toPixelFormat v4l2 fmt dflt v =
     (case find (\<lambda>(k, f, d). v4l2 k = fourcc v) vpf2pf_entries of
        None \<Rightarrow> Some (dflt, [unsupported_warning (toString_spec v)])
      | Some (k, f, d) \<Rightarrow> Some (fmt f, [])) \<and>
   (fourcc v \<notin> (\<lambda>e. v4l2 (fst e)) ` set vpf2pf_entries \<longrightarrow>
      toPixelFormat v4l2 fmt dflt v = Some (dflt, [unsupported_warning (toString_spec v)])) \<and>
   (distinct (map (\<lambda>e. v4l2 (fst e)) vpf2pf_entries) \<longrightarrow>
      (\<forall>(k, f, d) \<in> set vpf2pf_entries.
         toPixelFormat v4l2 fmt dflt \<lparr>fourcc = v4l2 k\<rparr> = Some (fmt f, [])))"
  using toPixelFormat_find [of v4l2 fmt dflt v] toPixelFormat_unlisted [of v v4l2 fmt dflt]
    toPixelFormat_listed [of v4l2 _ _ _ fmt dflt]
  by blast

theorem toPixelFormat_correct_witness:
  "distinct (map (\<lambda>e. videodev2_h (fst e)) vpf2pf_entries) \<and>
   (V4L2_PIX_FMT_YUYV, formats_YUYV, ''YUYV 4:2:2'') \<in> set vpf2pf_entries \<and>
   toPixelFormat videodev2_h (\<lambda>f. Some f) None \<lparr>fourcc = videodev2_h V4L2_PIX_FMT_YUYV\<rparr> =
     Some (Some formats_YUYV, []) \<and>
   (0x20203A59 :: uint32_t) \<notin> (\<lambda>e. videodev2_h (fst e)) ` set vpf2pf_entries \<and>
   toPixelFormat videodev2_h (\<lambda>f. Some f) None \<lparr>fourcc = 0x20203A59\<rparr> =
     Some (None, [unsupported_warning ''Y:  ''])"
proof -
  have mem: "(V4L2_PIX_FMT_YUYV, formats_YUYV, ''YUYV 4:2:2'') \<in> set vpf2pf_entries"
    by (simp add: vpf2pf_entries_def)
  have unl: "(0x20203A59 :: uint32_t) \<notin> (\<lambda>e. videodev2_h (fst e)) ` set vpf2pf_entries"
    by (simp add: vpf2pf_entries_def v4l2_fourcc_def)
  have str: "toString_spec \<lparr>fourcc = 0x20203A59\<rparr> = ''Y:  ''"
    by code_simp
  have "toPixelFormat videodev2_h (\<lambda>f. Some f) None \<lparr>fourcc = videodev2_h V4L2_PIX_FMT_YUYV\<rparr> =
          Some (Some formats_YUYV, [])"
    using toPixelFormat_correct [of videodev2_h "\<lambda>f. Some f" None "\<lparr>fourcc = 0x20203A59\<rparr>"]
      distinct_videodev2_h mem
    by blast
  moreover have "toPixelFormat videodev2_h (\<lambda>f. Some f) None \<lparr>fourcc = 0x20203A59\<rparr> =
          Some (None, [unsupported_warning (toString_spec \<lparr>fourcc = 0x20203A59\<rparr>)])"
    using toPixelFormat_correct
      [of videodev2_h "\<lambda>f. Some f" None "\<lparr>fourcc = 0x20203A59\<rparr>",
        THEN conjunct2, THEN conjunct1]
      unl
    by simp
  ultimately show ?thesis
    using distinct_videodev2_h mem unl by (simp only: str simp_thms)
qed

section \<open>Properties of BoundMethodBase::activatePack\<close>

lemma effectiveType_not_Auto:
  "effectiveType current thread this \<noteq> ConnectionTypeAuto"
  by (simp add: effectiveType_def Let_def)

text \<open>
  C2.  When the stored connection type is ConnectionTypeAuto, the effective connection
  type is ConnectionTypeDirect exactly when the caller's current thread is the thread of
  the receiver object, and ConnectionTypeQueued otherwise; activatePack then invokes the
  pack directly in the first case and posts the message in the second.
\<close>

theorem activatePack_auto:
  assumes "connectionType this = ConnectionTypeAuto"
  shows "(effectiveType current thread this = ConnectionTypeDirect
            \<longleftrightarrow> current = thread (object this)) \<and>
         (effectiveType current thread this = ConnectionTypeQueued
            \<longleftrightarrow> current \<noteq> thread (object this)) \<and>
         activatePack current thread sem this pk del =
           (if current = thread (object this)
            then (InvokePack this pk # (if del then [DeleteMethod this] else []), True)
            else ([PostMessage (object this)
                     \<lparr>boundMethod = this, pack = pk, semaphore = None, deleteMethod = del\<rparr>],
                  False))"
  using assms by (simp add: effectiveType_def activatePack_def)

theorem activatePack_auto_witness:
  "effectiveType 1 (\<lambda>ob. 1) \<lparr>object = 7, connectionType = ConnectionTypeAuto\<rparr>
     = ConnectionTypeDirect \<and>
   effectiveType 1 (\<lambda>ob. 2) \<lparr>object = 7, connectionType = ConnectionTypeAuto\<rparr>
     = ConnectionTypeQueued \<and>
   snd (activatePack 1 (\<lambda>ob. 1) 0 \<lparr>object = 7, connectionType = ConnectionTypeAuto\<rparr> 3 False)
     = True \<and>
   snd (activatePack 1 (\<lambda>ob. 2) 0 \<lparr>object = 7, connectionType = ConnectionTypeAuto\<rparr> 3 False)
     = False"
  using activatePack_auto
      [of "\<lparr>object = 7, connectionType = ConnectionTypeAuto\<rparr>" 1 "\<lambda>ob. 1" 0 3 False]
    activatePack_auto
      [of "\<lparr>object = 7, connectionType = ConnectionTypeAuto\<rparr>" 1 "\<lambda>ob. 2" 0 3 False]
  by simp

text \<open>
  C3.  When the effective connection type is ConnectionTypeQueued, activatePack makes one
  call: it posts to the receiver object an InvokeMessage that carries the bound method,
  the pack and no semaphore.  It does not invoke the pack, and it returns false.
\<close>

theorem activatePack_queued:
  assumes "effectiveType current thread this = ConnectionTypeQueued"
  shows "activatePack current thread sem this pk del =
           ([PostMessage (object this)
               \<lparr>boundMethod = this, pack = pk, semaphore = None, deleteMethod = del\<rparr>],
            False) \<and>
         \<not> list_ex is_invocation (fst (activatePack current thread sem this pk del))"
  using assms by (simp add: activatePack_def)

theorem activatePack_queued_witness:
  "activatePack 1 (\<lambda>ob. 1) 0 \<lparr>object = 7, connectionType = ConnectionTypeQueued\<rparr> 3 True =
     ([PostMessage 7
         \<lparr>boundMethod = \<lparr>object = 7, connectionType = ConnectionTypeQueued\<rparr>, pack = 3,
          semaphore = None, deleteMethod = True\<rparr>],
      False)"
proof -
  have "effectiveType 1 (\<lambda>ob. 1) \<lparr>object = 7, connectionType = ConnectionTypeQueued\<rparr>
          = ConnectionTypeQueued"
    by (simp add: effectiveType_def)
  from activatePack_queued [OF this, of 0 3 True] show ?thesis
    by simp
qed

text \<open>
  C4.  When the effective connection type is ConnectionTypeDirect, activatePack first
  calls invokePack on the pack, in the caller, then deletes the bound method when asked
  to, and returns true.  It posts no message and waits for no semaphore.
\<close>

theorem activatePack_direct:
  assumes "effectiveType current thread this = ConnectionTypeDirect"
  shows "activatePack current thread sem this pk del =
           (InvokePack this pk # (if del then [DeleteMethod this] else []), True)"
  using assms by (simp add: activatePack_def)

theorem activatePack_direct_witness:
  "activatePack 1 (\<lambda>ob. 2) 0 \<lparr>object = 7, connectionType = ConnectionTypeDirect\<rparr> 3 True =
     ([InvokePack \<lparr>object = 7, connectionType = ConnectionTypeDirect\<rparr> 3,
       DeleteMethod \<lparr>object = 7, connectionType = ConnectionTypeDirect\<rparr>],
      True)"
proof -
  have "effectiveType 1 (\<lambda>ob. 2) \<lparr>object = 7, connectionType = ConnectionTypeDirect\<rparr>
          = ConnectionTypeDirect"
    by (simp add: effectiveType_def)
  from activatePack_direct [OF this, of 0 3 True] show ?thesis
    by simp
qed

text \<open>
  C10.  activatePack handles every value of the connection type: whenever the effective
  type is neither ConnectionTypeQueued nor ConnectionTypeBlocking, be it
  ConnectionTypeDirect or a value that is no enumerator, the default branch invokes the
  pack directly and returns true.
\<close>

theorem activatePack_default:
  assumes "effectiveType current thread this \<noteq> ConnectionTypeQueued"
    and "effectiveType current thread this \<noteq> ConnectionTypeBlocking"
  shows "activatePack current thread sem this pk del =
           (InvokePack this pk # (if del then [DeleteMethod this] else []), True)"
  using assms by (simp add: activatePack_def split: ConnectionType.splits)

theorem activatePack_default_witness:
  "activatePack 1 (\<lambda>ob. 2) 0 \<lparr>object = 7, connectionType = ConnectionTypeOther 42\<rparr> 3 False =
     ([InvokePack \<lparr>object = 7, connectionType = ConnectionTypeOther 42\<rparr> 3], True)"
proof -
  have "effectiveType 1 (\<lambda>ob. 2) \<lparr>object = 7, connectionType = ConnectionTypeOther 42\<rparr>
          = ConnectionTypeOther 42"
    by (simp add: effectiveType_def)
  then have "effectiveType 1 (\<lambda>ob. 2) \<lparr>object = 7, connectionType = ConnectionTypeOther 42\<rparr>
               \<noteq> ConnectionTypeQueued"
    and "effectiveType 1 (\<lambda>ob. 2) \<lparr>object = 7, connectionType = ConnectionTypeOther 42\<rparr>
               \<noteq> ConnectionTypeBlocking"
    by simp_all
  from activatePack_default [OF this, of 0 3 False] show ?thesis
    by simp
qed

text \<open>
  C1 (as amended).  activatePack has no check for a blocking call whose caller runs on
  the receiver object's thread.  Such a call issues no diagnostic and proceeds as every
  blocking call does: it constructs the semaphore, posts the InvokeMessage that carries
  it to the receiver object, and then waits for the semaphore.
\<close>

theorem activatePack_blocking_same_thread:
  assumes "effectiveType current thread this = ConnectionTypeBlocking"
    and "current = thread (object this)"
  shows "\<not> list_ex is_diagnostic (fst (activatePack current thread sem this pk del)) \<and>
         fst (activatePack current thread sem this pk del) =
           [SemaphoreConstruct sem,
            PostMessage (object this)
              \<lparr>boundMethod = this, pack = pk, semaphore = Some sem, deleteMethod = del\<rparr>,
            SemaphoreAcquire sem]"
  using assms by (simp add: activatePack_def)

theorem activatePack_blocking_same_thread_witness:
  "fst (activatePack 1 (\<lambda>ob. 1) 0 \<lparr>object = 7, connectionType = ConnectionTypeBlocking\<rparr> 3 False) =
     [SemaphoreConstruct 0,
      PostMessage 7
        \<lparr>boundMethod = \<lparr>object = 7, connectionType = ConnectionTypeBlocking\<rparr>, pack = 3,
         semaphore = Some 0, deleteMethod = False\<rparr>,
      SemaphoreAcquire 0]"
proof -
  let ?m = "\<lparr>object = 7, connectionType = ConnectionTypeBlocking\<rparr>"
  have "effectiveType 1 (\<lambda>ob. 1) ?m = ConnectionTypeBlocking"
    by (simp add: effectiveType_def)
  moreover have "(1 :: Thread) = (\<lambda>ob. 1) (object ?m)"
    by simp
  ultimately show ?thesis
    using activatePack_blocking_same_thread [of 1 "\<lambda>ob. 1" ?m 0 3 False]
    by simp
qed

text \<open>
  The claim as it was stated fails: a blocking call made on the receiver's own thread
  reaches the wait for the semaphore, and nothing is logged before it.
\<close>

theorem activatePack_blocking_same_thread_counterexample:
  "effectiveType 1 (\<lambda>ob. 1) \<lparr>object = 7, connectionType = ConnectionTypeBlocking\<rparr>
     = ConnectionTypeBlocking \<and>
   (1 :: Thread) = (\<lambda>ob. 1) (object \<lparr>object = 7, connectionType = ConnectionTypeBlocking\<rparr>) \<and>
   \<not> list_ex is_diagnostic
       (fst (activatePack 1 (\<lambda>ob. 1) 0
               \<lparr>object = 7, connectionType = ConnectionTypeBlocking\<rparr> 3 False)) \<and>
   SemaphoreAcquire 0 \<in>
     set (fst (activatePack 1 (\<lambda>ob. 1) 0
                 \<lparr>object = 7, connectionType = ConnectionTypeBlocking\<rparr> 3 False))"
  by (simp add: effectiveType_def activatePack_def)

section \<open>Properties of a blocking call in the system of threads\<close>

lemma foreign_resume [simp]:
  "foreign sem p (resume as k) = (\<not> list_ex (involves sem p) as \<and> foreign sem p k)"
  by (cases as) auto

lemma foreign_queue_simps [simp]:
  "foreign_queue sem p []"
  "foreign_queue sem p (x # q) = (pack (snd x) \<noteq> p \<and> semaphore (snd x) \<noteq> Some sem \<and> foreign_queue sem p q)"
  "foreign_queue sem p (q @ q') = (foreign_queue sem p q \<and> foreign_queue sem p q')"
  by (auto simp: foreign_queue_def)

lemma invokeMessage_foreign:
  "pack msg \<noteq> p \<Longrightarrow> semaphore msg \<noteq> Some sem \<Longrightarrow> \<not> list_ex (involves sem p) (invokeMessage msg)"
  by (auto simp: invokeMessage_def split: option.splits)

lemma perform_fields [simp]:
  "activity (perform a s) = activity s"
  "trace (perform a s) = trace s"
  "affinity (perform a s) = affinity s"
  by (cases a; simp)+

lemma perform_foreign:
  assumes "\<not> involves sem p a"
  shows "available (perform a s) sem = available s sem"
    and "packs (perform a s) p = packs s p"
    and "messages (perform a s) t' = messages s t' \<or>
         (\<exists>x. foreign_queue sem p [x] \<and> messages (perform a s) t' = messages s t' @ [x])"
  using assms by (cases a; auto)+

lemma perform_foreign_queue:
  "\<not> involves sem p a \<Longrightarrow> foreign_queue sem p (messages s t) \<Longrightarrow>
   foreign_queue sem p (messages (perform a s) t)"
  by (cases a) auto

lemma step_cases [consumes 1, case_names call return dispatch]:
  assumes "step t s = Some s'"
  obtains
    (call) a as k where "activity s t = Executing (a # as) k" and "enabled s a"
      and "s' = (perform a s)\<lparr>activity := (activity s)(t := resume as k),
                                trace := trace s @ [(t, a)]\<rparr>"
  | (return) k where "activity s t = Executing [] k"
      and "s' = s\<lparr>activity := (activity s)(t := k)\<rparr>"
  | (dispatch) ob msg rest where "activity s t = EventLoop"
      and "messages s t = (ob, msg) # rest"
      and "s' = s\<lparr>messages := (messages s)(t := rest),
                    activity := (activity s)(t := Executing (invokeMessage msg) EventLoop)\<rparr>"
  using assms
  by (auto simp: step_def split: activity.splits list.splits if_splits)

lemma step_foreign:
  assumes "step t s = Some s'"
    and "foreign sem p (activity s t)"
    and "foreign_queue sem p (messages s t)"
  shows "foreign sem p (activity s' t) \<and>
         (\<forall>t'. t' \<noteq> t \<longrightarrow> activity s' t' = activity s t') \<and>
         available s' sem = available s sem \<and>
         packs s' p = packs s p \<and>
         affinity s' = affinity s \<and>
         (\<forall>t'. messages s' t' = messages s t' \<or>
               (t' = t \<and> messages s' t' = tl (messages s t')) \<or>
               (\<exists>x. foreign_queue sem p [x] \<and> messages s' t' = messages s t' @ [x])) \<and>
         (trace s' = trace s \<or>
          (\<exists>a. \<not> involves sem p a \<and> trace s' = trace s @ [(t, a)]))"
  using assms(1)
proof (cases rule: step_cases)
  case (call a as k)
  with assms(2) have na: "\<not> involves sem p a"
    and "\<not> list_ex (involves sem p) as" and "foreign sem p k"
    by simp_all
  with call perform_foreign [OF na, of s] show ?thesis
    by auto
next
  case (return k)
  with assms(2) show ?thesis
    by simp
next
  case (dispatch ob msg rest)
  with assms(3) show ?thesis
    by (simp add: invokeMessage_foreign)
qed

lemma foreign_queue_tl: "foreign_queue sem p q \<Longrightarrow> foreign_queue sem p (tl q)"
  by (cases q) auto

lemma events_append:
  "n \<le> length (trace s) \<Longrightarrow> trace s' = trace s @ [(t, a)] \<Longrightarrow>
   events n sem p s' = events n sem p s @ (if involves sem p a then [(t, a)] else [])"
  by (simp add: events_def)

lemma events_same: "trace s' = trace s \<Longrightarrow> events n sem p s' = events n sem p s"
  by (simp add: events_def)

lemma foreign_step_frame:
  assumes st: "step t s = Some s'"
    and fr: "frame A B sem p s0 s"
    and tA: "t \<noteq> A"
    and ft: "foreign sem p (activity s t)"
    and fq: "foreign_queue sem p (messages s t)"
  shows "frame A B sem p s0 s' \<and> activity s' A = activity s A \<and>
         available s' sem = available s sem \<and> packs s' p = packs s p \<and>
         events (length (trace s0)) sem p s' = events (length (trace s0)) sem p s \<and>
         (t \<noteq> B \<longrightarrow> activity s' B = activity s B) \<and>
         foreign sem p (activity s' t) \<and>
         (messages s' B = messages s B \<or> (t = B \<and> messages s' B = tl (messages s B)) \<or>
          (\<exists>x. foreign_queue sem p [x] \<and> messages s' B = messages s B @ [x]))"
proof -
  note sf = step_foreign [OF st ft fq]
  have ev: "events (length (trace s0)) sem p s' = events (length (trace s0)) sem p s"
    using sf fr by (auto simp: frame_def events_def)
  have q: "\<forall>t'. t' \<noteq> B \<longrightarrow> foreign_queue sem p (messages s' t')"
  proof (intro allI impI)
    fix t' assume "t' \<noteq> B"
    then have "foreign_queue sem p (messages s t')"
      using fr by (simp add: frame_def)
    moreover from sf have "messages s' t' = messages s t' \<or>
               (t' = t \<and> messages s' t' = tl (messages s t')) \<or>
               (\<exists>x. foreign_queue sem p [x] \<and> messages s' t' = messages s t' @ [x])"
      by blast
    ultimately show "foreign_queue sem p (messages s' t')"
      by (auto simp: foreign_queue_tl)
  qed
  have a: "\<forall>t'. t' \<noteq> A \<and> t' \<noteq> B \<longrightarrow> foreign sem p (activity s' t')"
    using sf fr by (metis frame_def)
  have "frame A B sem p s0 s'"
    using sf fr q a by (auto simp: frame_def)
  then show ?thesis
    using sf ev tA by auto
qed

lemma phase_step_other:
  assumes ph: "at_phase ph A sem m p del s0 s"
    and st: "step t s = Some s'"
    and tA: "t \<noteq> A"
    and tB: "t \<noteq> affinity s0 (object m) \<or> ph \<in> {Constructing, Posting, Released, Completed}"
  shows "at_phase ph A sem m p del s0 s'"
proof -
  let ?B = "affinity s0 (object m)"
  have fr: "frame A ?B sem p s0 s"
    using ph by (simp add: at_phase_def Let_def)
  have ft: "foreign sem p (activity s t)"
    using ph tA tB by (cases ph) (auto simp: at_phase_def Let_def frame_def)
  have fq: "foreign_queue sem p (messages s t)"
    using ph tA tB by (cases ph) (auto simp: at_phase_def Let_def frame_def)
  note fs = foreign_step_frame [OF st fr tA ft fq]
  show ?thesis
  proof (cases "t = ?B")
    case True
    with tB have "ph \<in> {Constructing, Posting, Released, Completed}"
      by simp
    with ph fs True show ?thesis
      by (auto simp: at_phase_def Let_def foreign_queue_tl)
  next
    case False
    show ?thesis
    proof (cases "ph = Pending")
      case True
      from ph True obtain before after where
        q: "messages s ?B = before @ (object m, blocking_message sem m p del) # after"
          "foreign_queue sem p before" "foreign_queue sem p after"
        by (auto simp: at_phase_def Let_def)
      from fs \<open>t \<noteq> ?B\<close> have "messages s' ?B = messages s ?B \<or>
          (\<exists>x. foreign_queue sem p [x] \<and> messages s' ?B = messages s ?B @ [x])"
        by blast
      then have "\<exists>after'. messages s' ?B = before @ (object m, blocking_message sem m p del) # after'
                  \<and> foreign_queue sem p after'"
        using q by auto
      with q(2) have "\<exists>before after. messages s' ?B = before @ (object m, blocking_message sem m p del) # after
                  \<and> foreign_queue sem p before \<and> foreign_queue sem p after"
        by blast
      with ph fs True \<open>t \<noteq> ?B\<close> show ?thesis
        by (simp add: at_phase_def Let_def)
    next
      case False
      with ph fs \<open>t \<noteq> ?B\<close> show ?thesis
        by (cases ph) (auto simp: at_phase_def Let_def)
    qed
  qed
qed

lemma frame_trace_le: "frame A B sem p s0 s \<Longrightarrow> length (trace s0) \<le> length (trace s)"
  by (simp add: frame_def)

lemma phase_frame: "at_phase ph A sem m p del s0 s \<Longrightarrow> frame A (affinity s0 (object m)) sem p s0 s"
  by (simp add: at_phase_def Let_def)

lemma phase_step_caller:
  assumes ph: "at_phase ph A sem m p del s0 s"
    and st: "step A s = Some s'"
    and AB: "A \<noteq> affinity s0 (object m)"
  shows "at_phase (next_phase ph) A sem m p del s0 s'"
proof (cases ph)
  case Constructing
  let ?msg = "blocking_message sem m p del"
  from ph Constructing have
    act: "activity s A = Executing [SemaphoreConstruct sem, PostMessage (object m) ?msg,
            SemaphoreAcquire sem] (Returned True)"
    by (simp add: at_phase_def Let_def)
  with st have s': "s' = s\<lparr>available := (available s)(sem := 0),
      activity := (activity s)(A := Executing [PostMessage (object m) ?msg, SemaphoreAcquire sem]
         (Returned True)),
      trace := trace s @ [(A, SemaphoreConstruct sem)]\<rparr>"
    by (simp add: step_def)
  have fr: "frame A (affinity s0 (object m)) sem p s0 s'"
    using phase_frame [OF ph] by (simp add: frame_def s')
  have ev: "events (length (trace s0)) sem p s' =
      events (length (trace s0)) sem p s @ [(A, SemaphoreConstruct sem)]"
    using events_append [OF frame_trace_le [OF phase_frame [OF ph]], of s' A "SemaphoreConstruct sem" sem p]
    by (simp add: s')
  show ?thesis
    using ph Constructing AB fr ev
    by (simp add: at_phase_def Let_def blocking_events_def) (simp add: s')
next
  case Posting
  let ?msg = "blocking_message sem m p del"
  let ?B = "affinity s0 (object m)"
  from ph Posting have
    act: "activity s A = Executing [PostMessage (object m) ?msg, SemaphoreAcquire sem]
            (Returned True)"
    and thr: "affinity s = affinity s0"
    and fq: "foreign_queue sem p (messages s ?B)"
    by (simp_all add: at_phase_def Let_def frame_def)
  with st have s': "s' = s\<lparr>messages := (messages s)(?B := messages s ?B @ [(object m, ?msg)]),
      activity := (activity s)(A := Executing [SemaphoreAcquire sem] (Returned True)),
      trace := trace s @ [(A, PostMessage (object m) ?msg)]\<rparr>"
    by (simp add: step_def)
  have fr: "frame A ?B sem p s0 s'"
    using phase_frame [OF ph] by (simp add: frame_def s')
  have ev: "events (length (trace s0)) sem p s' =
      events (length (trace s0)) sem p s @ [(A, PostMessage (object m) ?msg)]"
    using events_append [OF frame_trace_le [OF phase_frame [OF ph]], of s' A
        "PostMessage (object m) ?msg" sem p]
    by (simp add: s' blocking_message_def)
  have q: "\<exists>before after. messages s' ?B = before @ (object m, ?msg) # after \<and>
             foreign_queue sem p before \<and> foreign_queue sem p after"
    using fq by (simp add: s') (metis append_Nil2 foreign_queue_simps(1) append.right_neutral)
  show ?thesis
    using ph Posting AB fr ev q
    by (simp add: at_phase_def Let_def blocking_events_def) (simp add: s')
next
  case Pending
  with ph have "activity s A = Executing [SemaphoreAcquire sem] (Returned True)"
    and "available s sem = 0"
    by (simp_all add: at_phase_def Let_def)
  with st show ?thesis
    by (simp add: step_def)
next
  case Dispatched
  with ph have "activity s A = Executing [SemaphoreAcquire sem] (Returned True)"
    and "available s sem = 0"
    by (simp_all add: at_phase_def Let_def)
  with st show ?thesis
    by (simp add: step_def)
next
  case Invoked
  with ph have "activity s A = Executing [SemaphoreAcquire sem] (Returned True)"
    and "available s sem = 0"
    by (simp_all add: at_phase_def Let_def)
  with st show ?thesis
    by (simp add: step_def)
next
  case Released
  from ph Released have
    act: "activity s A = Executing [SemaphoreAcquire sem] (Returned True)"
    and av: "available s sem = 1"
    by (simp_all add: at_phase_def Let_def)
  with st have s': "s' = s\<lparr>available := (available s)(sem := 0),
      activity := (activity s)(A := Returned True),
      trace := trace s @ [(A, SemaphoreAcquire sem)]\<rparr>"
    by (simp add: step_def)
  have fr: "frame A (affinity s0 (object m)) sem p s0 s'"
    using phase_frame [OF ph] by (simp add: frame_def s')
  have ev: "events (length (trace s0)) sem p s' =
      events (length (trace s0)) sem p s @ [(A, SemaphoreAcquire sem)]"
    using events_append [OF frame_trace_le [OF phase_frame [OF ph]], of s' A "SemaphoreAcquire sem" sem p]
    by (simp add: s')
  show ?thesis
    using ph Released AB fr ev
    by (simp add: at_phase_def Let_def blocking_events_def) (simp add: s')
next
  case Completed
  with ph have "activity s A = Returned True"
    by (simp_all add: at_phase_def Let_def)
  with st show ?thesis
    by (simp add: step_def)
qed

lemma phase_step_receiver:
  assumes ph: "at_phase ph A sem m p del s0 s"
    and st: "step (affinity s0 (object m)) s = Some s'"
    and AB: "A \<noteq> affinity s0 (object m)"
    and mid: "ph \<in> {Pending, Dispatched, Invoked}"
  shows "if ph = Pending
         then at_phase ph A sem m p del s0 s' \<or> at_phase (next_phase ph) A sem m p del s0 s'
         else at_phase (next_phase ph) A sem m p del s0 s'"
proof -
  let ?B = "affinity s0 (object m)"
  let ?msg = "blocking_message sem m p del"
  let ?dels = "if del then [DeleteMethod m] else []"
  note fr = phase_frame [OF ph]
  note le = frame_trace_le [OF fr]
  from mid consider "ph = Pending" | "ph = Dispatched" | "ph = Invoked"
    by auto
  then show ?thesis
  proof cases
    case 1
    from ph 1 obtain before after where
      q: "messages s ?B = before @ (object m, ?msg) # after"
      and fb: "foreign_queue sem p before" and fa: "foreign_queue sem p after"
      and fB: "foreign sem p (activity s ?B)"
      by (auto simp: at_phase_def Let_def)
    from st show ?thesis
    proof (cases rule: step_cases)
      case (call a as k)
      with fB have na: "\<not> involves sem p a" and fas: "\<not> list_ex (involves sem p) as"
        and fk: "foreign sem p k"
        by simp_all
      note pf = perform_foreign [OF na, of s]
      have fr': "frame A ?B sem p s0 s'"
        using fr pf(2) AB by (simp add: frame_def call(3) perform_foreign_queue [OF na])
      have ev: "events (length (trace s0)) sem p s' = events (length (trace s0)) sem p s"
        using events_append [OF le, of s' ?B a sem p] na by (simp add: call(3))
      from pf(3) [of ?B] have "\<exists>after'. messages s' ?B = before @ (object m, ?msg) # after'
                  \<and> foreign_queue sem p after'"
        using q fa by (auto simp: call(3))
      with fb have q': "\<exists>before after. messages s' ?B = before @ (object m, ?msg) # after
                  \<and> foreign_queue sem p before \<and> foreign_queue sem p after"
        by blast
      have "at_phase Pending A sem m p del s0 s'"
        using ph 1 AB fr' ev q' pf(1) fas fk
        by (simp add: at_phase_def Let_def) (simp add: call(3))
      with 1 show ?thesis by simp
    next
      case (return k)
      have fr': "frame A ?B sem p s0 s'"
        using fr AB by (auto simp: frame_def return(2))
      have "at_phase Pending A sem m p del s0 s'"
        using ph 1 AB fr' fB return(1)
        by (simp add: at_phase_def Let_def) (simp add: return(2) events_def)
      with 1 show ?thesis by simp
    next
      case (dispatch ob msg rest)
      have fr': "frame A ?B sem p s0 s'"
        using fr AB by (auto simp: frame_def dispatch(3))
      show ?thesis
      proof (cases before)
        case Nil
        with q dispatch(2) have "msg = ?msg" and "rest = after"
          by simp_all
        then have "at_phase Dispatched A sem m p del s0 s'"
          using ph 1 AB fr' fa
          by (simp add: at_phase_def Let_def)
            (simp add: dispatch(3) events_def invokeMessage_def blocking_message_def)
        with 1 show ?thesis by simp
      next
        case (Cons x before')
        with q dispatch(2) fb have "rest = before' @ (object m, ?msg) # after"
          and "foreign_queue sem p before'"
          and "pack msg \<noteq> p" and "semaphore msg \<noteq> Some sem"
          by auto
        then have "at_phase Pending A sem m p del s0 s'"
          using ph 1 AB fr' fa invokeMessage_foreign [of msg p sem]
          by (simp add: at_phase_def Let_def) (auto simp: dispatch(3) events_def)
        with 1 show ?thesis by simp
      qed
    qed
  next
    case 2
    from ph 2 have
      act: "activity s ?B = Executing (InvokePack m p # SemaphoreRelease sem # ?dels) EventLoop"
      by (simp add: at_phase_def Let_def)
    with st have s': "s' = s\<lparr>packs := (packs s)(p := (packs s p)\<lparr>ret := Some (func m (args (packs s p)))\<rparr>),
        activity := (activity s)(?B := Executing (SemaphoreRelease sem # ?dels) EventLoop),
        trace := trace s @ [(?B, InvokePack m p)]\<rparr>"
      by (simp add: step_def)
    have fr': "frame A ?B sem p s0 s'"
      using fr by (simp add: frame_def s')
    have ev: "events (length (trace s0)) sem p s' =
        events (length (trace s0)) sem p s @ [(?B, InvokePack m p)]"
      using events_append [OF le, of s' ?B "InvokePack m p" sem p] by (simp add: s')
    have "args (packs s p) = args (packs s0 p)"
      using fr by (simp add: frame_def)
    then have "at_phase Invoked A sem m p del s0 s'"
      using ph 2 AB fr' ev
      by (simp add: at_phase_def Let_def blocking_events_def) (simp add: s')
    with 2 show ?thesis by simp
  next
    case 3
    from ph 3 have
      act: "activity s ?B = Executing (SemaphoreRelease sem # ?dels) EventLoop"
      and av: "available s sem = 0"
      by (simp_all add: at_phase_def Let_def)
    with st have s': "s' = s\<lparr>available := (available s)(sem := 1),
        activity := (activity s)(?B := resume ?dels EventLoop),
        trace := trace s @ [(?B, SemaphoreRelease sem)]\<rparr>"
      by (simp add: step_def)
    have fr': "frame A ?B sem p s0 s'"
      using fr by (simp add: frame_def s')
    have ev: "events (length (trace s0)) sem p s' =
        events (length (trace s0)) sem p s @ [(?B, SemaphoreRelease sem)]"
      using events_append [OF le, of s' ?B "SemaphoreRelease sem" sem p] by (simp add: s')
    have "at_phase Released A sem m p del s0 s'"
      using ph 3 AB fr' ev
      by (simp add: at_phase_def Let_def blocking_events_def) (simp add: s')
    with 3 show ?thesis by simp
  qed
qed

lemma phase_step:
  assumes ph: "at_phase ph A sem m p del s0 s"
    and st: "step t s = Some s'"
    and AB: "A \<noteq> affinity s0 (object m)"
  shows "at_phase ph A sem m p del s0 s' \<or> at_phase (next_phase ph) A sem m p del s0 s'"
proof (cases "t = A")
  case True
  with phase_step_caller [OF ph _ AB] st show ?thesis
    by simp
next
  case tA: False
  show ?thesis
  proof (cases "t = affinity s0 (object m) \<and> ph \<in> {Pending, Dispatched, Invoked}")
    case True
    with phase_step_receiver [OF ph _ AB] st show ?thesis
      by (simp split: if_splits)
  next
    case False
    then have "t \<noteq> affinity s0 (object m) \<or> ph \<in> {Constructing, Posting, Released, Completed}"
      by (cases ph) auto
    from phase_step_other [OF ph st tA this] show ?thesis
      by simp
  qed
qed

lemma phase_run:
  assumes "run sched s = Some s'"
    and "at_phase ph A sem m p del s0 s"
    and "A \<noteq> affinity s0 (object m)"
  shows "\<exists>ph'. at_phase ph' A sem m p del s0 s'"
  using assms
proof (induction sched arbitrary: s ph)
  case Nil
  then show ?case by auto
next
  case (Cons t sched)
  from Cons.prems(1) obtain s1 where st: "step t s = Some s1" and rn: "run sched s1 = Some s'"
    by (auto split: option.splits)
  from phase_step [OF Cons.prems(2) st Cons.prems(3)]
  obtain ph1 where "at_phase ph1 A sem m p del s0 s1"
    by blast
  from Cons.IH [OF rn this Cons.prems(3)] show ?case .
qed

lemma phase_initial:
  assumes "effectiveType A (affinity s0) m = ConnectionTypeBlocking"
    and "A \<noteq> affinity s0 (object m)"
    and "fresh A sem p s0"
  shows "at_phase Constructing A sem m p del s0
           (call A (activatePack A (affinity s0) sem m p del) s0)"
  using assms
  by (simp add: at_phase_def Let_def call_def activatePack_def frame_def fresh_def events_def
      blocking_message_def)

lemma phase_returned:
  assumes "at_phase ph A sem m p del s0 s"
    and "activity s A = Returned b"
  shows "ph = Completed \<and> b = True"
  using assms by (cases ph) (simp_all add: at_phase_def Let_def)

lemma blocking_call_safety:
  assumes "effectiveType A (affinity s0) m = ConnectionTypeBlocking"
    and "A \<noteq> affinity s0 (object m)"
    and "fresh A sem p s0"
    and "run sched (call A (activatePack A (affinity s0) sem m p del) s0) = Some s"
    and "activity s A = Returned b"
  shows "b = True \<and> ret (packs s p) = Some (func m (args (packs s0 p))) \<and>
         events (length (trace s0)) sem p s = blocking_events A sem m p del s0"
proof -
  from phase_run [OF assms(4) phase_initial [OF assms(1-3)] assms(2)]
  obtain ph where ph: "at_phase ph A sem m p del s0 s"
    by blast
  from phase_returned [OF ph assms(5)] have "ph = Completed" and "b = True"
    by simp_all
  with ph show ?thesis
    by (simp add: at_phase_def Let_def)
qed

lemma blocking_call_returns:
  assumes "effectiveType A (affinity s0) m = ConnectionTypeBlocking"
    and "A \<noteq> affinity s0 (object m)"
    and "activity s0 (affinity s0 (object m)) = EventLoop"
    and "messages s0 (affinity s0 (object m)) = []"
  shows "\<exists>s. run [A, A, affinity s0 (object m), affinity s0 (object m), affinity s0 (object m), A]
               (call A (activatePack A (affinity s0) sem m p del) s0) = Some s \<and>
             activity s A = Returned True"
  using assms
  by (simp add: call_def activatePack_def step_def invokeMessage_def)

lemma waiting_step:
  assumes w: "waiting n A sem m p del s0 s"
    and st: "step t s = Some s'"
    and AB: "A = affinity s0 (object m)"
  shows "waiting n A sem m p del s0 s' \<or> waiting (Suc n) A sem m p del s0 s'"
proof (cases "t = A")
  case tA: False
  let ?msg = "blocking_message sem m p del"
  have fr: "frame A A sem p s0 s"
    using w by (simp add: waiting_def Let_def)
  have ft: "foreign sem p (activity s t)" and fq: "foreign_queue sem p (messages s t)"
    using fr tA by (simp_all add: frame_def)
  note fs = foreign_step_frame [OF st fr tA ft fq]
  from fs tA have qs: "messages s' A = messages s A \<or>
      (\<exists>x. foreign_queue sem p [x] \<and> messages s' A = messages s A @ [x])"
    by blast
  have "waiting n A sem m p del s0 s'"
  proof (cases "n < 2")
    case True
    with w fs qs show ?thesis
      by (auto simp: waiting_def Let_def)
  next
    case False
    with w obtain before after where
      q: "messages s A = before @ (object m, ?msg) # after"
        "foreign_queue sem p before" "foreign_queue sem p after"
      by (auto simp: waiting_def Let_def)
    from qs q have "\<exists>after'. messages s' A = before @ (object m, ?msg) # after'
                  \<and> foreign_queue sem p after'"
      by auto
    with q(2) have "\<exists>before after. messages s' A = before @ (object m, ?msg) # after
                  \<and> foreign_queue sem p before \<and> foreign_queue sem p after"
      by blast
    with w fs False show ?thesis
      by (simp add: waiting_def Let_def)
  qed
  then show ?thesis ..
next
  case True
  let ?msg = "blocking_message sem m p del"
  have fr: "frame A A sem p s0 s"
    using w by (simp add: waiting_def Let_def)
  from w have "n = 0 \<or> n = 1 \<or> n = 2"
    by (auto simp: waiting_def Let_def)
  then consider "n = 0" | "n = 1" | "n = 2"
    by blast
  then show ?thesis
  proof cases
    case 1
    with w have "activity s A = Executing [SemaphoreConstruct sem, PostMessage (object m) ?msg,
            SemaphoreAcquire sem] (Returned True)"
      by (simp add: waiting_def Let_def)
    with st True have s': "s' = s\<lparr>available := (available s)(sem := 0),
      activity := (activity s)(A := Executing [PostMessage (object m) ?msg, SemaphoreAcquire sem]
         (Returned True)),
      trace := trace s @ [(A, SemaphoreConstruct sem)]\<rparr>"
      by (simp add: step_def)
    have "frame A A sem p s0 s'"
      using fr by (simp add: frame_def s')
    with w 1 have "waiting (Suc n) A sem m p del s0 s'"
      by (simp add: waiting_def Let_def) (simp add: s')
    then show ?thesis ..
  next
    case 2
    with w have act: "activity s A = Executing [PostMessage (object m) ?msg, SemaphoreAcquire sem]
            (Returned True)"
      and thr: "affinity s = affinity s0"
      and fq: "foreign_queue sem p (messages s A)"
      by (simp_all add: waiting_def Let_def frame_def)
    with st True AB have s': "s' = s\<lparr>messages := (messages s)(A := messages s A @ [(object m, ?msg)]),
      activity := (activity s)(A := Executing [SemaphoreAcquire sem] (Returned True)),
      trace := trace s @ [(A, PostMessage (object m) ?msg)]\<rparr>"
      by (simp add: step_def)
    have fr': "frame A A sem p s0 s'"
      using fr by (simp add: frame_def s')
    have "\<exists>before after. messages s' A = before @ (object m, ?msg) # after \<and>
             foreign_queue sem p before \<and> foreign_queue sem p after"
      using fq by (simp add: s') (metis append_Nil2 foreign_queue_simps(1))
    with w 2 fr' have "waiting (Suc n) A sem m p del s0 s'"
      by (simp add: waiting_def Let_def) (simp add: s')
    then show ?thesis ..
  next
    case 3
    with w have "activity s A = Executing [SemaphoreAcquire sem] (Returned True)"
      and "available s sem = 0"
      by (simp_all add: waiting_def Let_def)
    with st True show ?thesis
      by (simp add: step_def)
  qed
qed

lemma waiting_run:
  assumes "run sched s = Some s'"
    and "waiting n A sem m p del s0 s"
    and "A = affinity s0 (object m)"
  shows "\<exists>n'. waiting n' A sem m p del s0 s'"
  using assms
proof (induction sched arbitrary: s n)
  case Nil
  then show ?case by auto
next
  case (Cons t sched)
  from Cons.prems(1) obtain s1 where st: "step t s = Some s1" and rn: "run sched s1 = Some s'"
    by (auto split: option.splits)
  from waiting_step [OF Cons.prems(2) st Cons.prems(3)]
  obtain n1 where "waiting n1 A sem m p del s0 s1"
    by blast
  from Cons.IH [OF rn this Cons.prems(3)] show ?case .
qed

lemma blocking_same_thread_deadlock:
  assumes "effectiveType A (affinity s0) m = ConnectionTypeBlocking"
    and "A = affinity s0 (object m)"
    and "fresh A sem p s0"
    and "run sched (call A (activatePack A (affinity s0) sem m p del) s0) = Some s"
  shows "activity s A \<noteq> Returned b"
proof -
  have "waiting 0 A sem m p del s0 (call A (activatePack A (affinity s0) sem m p del) s0)"
    using assms(1,3)
    by (simp add: waiting_def Let_def call_def activatePack_def frame_def fresh_def
        blocking_message_def)
  from waiting_run [OF assms(4) this assms(2)]
  obtain n where "waiting n A sem m p del s0 s"
    by blast
  then show ?thesis
    by (auto simp: waiting_def Let_def)
qed

lemma looping_resume [simp]:
  "looping (resume as k) = (\<not> list_ex is_acquire as \<and> looping k)"
  by (cases as) auto

lemma remaining_resume:
  "remaining (Executing (a # as) k) = Suc (remaining (resume as k))"
  by (cases as) auto

lemma invokeMessage_no_acquire: "\<not> list_ex is_acquire (invokeMessage msg)"
  by (auto simp: invokeMessage_def split: option.splits)

lemma invokeMessage_not_Nil: "invokeMessage msg \<noteq> []"
  by (simp add: invokeMessage_def)

lemma invokeMessage_length: "max 1 (length (invokeMessage msg)) = length (invokeMessage msg)"
  by (simp add: invokeMessage_def)

lemma enabled_no_acquire: "\<not> is_acquire a \<Longrightarrow> enabled s a"
  by (cases a) auto

lemma step_activity_other: "step t s = Some s' \<Longrightarrow> t' \<noteq> t \<Longrightarrow> activity s' t' = activity s t'"
  by (erule step_cases) auto

lemma step_looping:
  assumes "step t s = Some s'" and "looping (activity s B)"
  shows "looping (activity s' B)"
proof (cases "t = B")
  case False
  with assms step_activity_other [OF assms(1), of B] show ?thesis
    by simp
next
  case True
  from assms(1) show ?thesis
    using assms(2) True
    by (cases rule: step_cases) (auto simp: invokeMessage_no_acquire)
qed

lemma run_looping:
  "run sched s = Some s' \<Longrightarrow> looping (activity s B) \<Longrightarrow> looping (activity s' B)"
proof (induction sched arbitrary: s)
  case Nil
  then show ?case by simp
next
  case (Cons t sched)
  then show ?case
    by (auto split: option.splits dest: step_looping)
qed

lemma step_progress:
  assumes "looping (activity s B)"
    and "activity s B \<noteq> EventLoop \<or> messages s B \<noteq> []"
  shows "\<exists>s'. step B s = Some s'"
proof (cases "activity s B")
  case EventLoop
  with assms(2) show ?thesis
    by (auto simp: step_def split: list.splits)
next
  case (Executing as k)
  with assms(1) show ?thesis
    by (cases as) (auto simp: step_def enabled_no_acquire)
next
  case (Returned b)
  with assms(1) show ?thesis by simp
qed

lemma run_append:
  "run (xs @ ys) s = (case run xs s of None \<Rightarrow> None | Some s' \<Rightarrow> run ys s')"
  by (induction xs arbitrary: s) (auto split: option.splits)

lemma backlog_Cons:
  "backlog x (y # q) = (if y = x then 0 else Suc (length (invokeMessage (snd y))) + backlog x q)"
  by (simp add: backlog_def)

lemma backlog_append: "x \<in> set q \<Longrightarrow> backlog x (q @ q') = backlog x q"
  by (simp add: backlog_def takeWhile_append1)

lemma perform_messages:
  "messages (perform a s) t = messages s t \<or> (\<exists>x. messages (perform a s) t = messages s t @ [x])"
  by (cases a) auto

lemma pending_measure:
  assumes ph: "at_phase Pending A sem m p del s0 s"
    and st: "step (affinity s0 (object m)) s = Some s'"
    and ph': "at_phase Pending A sem m p del s0 s'"
  shows "remaining (activity s' (affinity s0 (object m))) +
           backlog (object m, blocking_message sem m p del) (messages s' (affinity s0 (object m)))
         < remaining (activity s (affinity s0 (object m))) +
           backlog (object m, blocking_message sem m p del) (messages s (affinity s0 (object m)))"
proof -
  let ?B = "affinity s0 (object m)"
  let ?x = "(object m, blocking_message sem m p del)"
  from ph have mem: "?x \<in> set (messages s ?B)"
    by (auto simp: at_phase_def Let_def)
  from st show ?thesis
  proof (cases rule: step_cases)
    case (call a as k)
    from perform_messages [of a s ?B] mem
    have "backlog ?x (messages s' ?B) = backlog ?x (messages s ?B)"
      by (auto simp: call(3) backlog_append)
    then show ?thesis
      by (simp add: call(1,3) remaining_resume del: remaining.simps)
  next
    case (return k)
    then show ?thesis by simp
  next
    case (dispatch ob msg rest)
    have "(ob, msg) \<noteq> ?x"
    proof
      assume "(ob, msg) = ?x"
      then have "activity s' ?B = Executing (invokeMessage (blocking_message sem m p del)) EventLoop"
        by (simp add: dispatch(3))
      moreover from ph' have "foreign sem p (activity s' ?B)"
        by (simp add: at_phase_def Let_def)
      ultimately show False
        by (simp add: invokeMessage_def blocking_message_def)
    qed
    then show ?thesis
      by (simp add: dispatch backlog_Cons invokeMessage_length invokeMessage_not_Nil)
  qed
qed

lemma pending_drains:
  assumes "at_phase Pending A sem m p del s0 s"
    and "looping (activity s (affinity s0 (object m)))"
    and "A \<noteq> affinity s0 (object m)"
  shows "\<exists>n s'. run (replicate n (affinity s0 (object m))) s = Some s' \<and>
           at_phase Dispatched A sem m p del s0 s'"
  using assms
proof (induction "remaining (activity s (affinity s0 (object m))) +
           backlog (object m, blocking_message sem m p del) (messages s (affinity s0 (object m)))"
       arbitrary: s rule: less_induct)
  case less
  let ?B = "affinity s0 (object m)"
  from less.prems(1) have "messages s ?B \<noteq> []"
    by (auto simp: at_phase_def Let_def)
  with step_progress [OF less.prems(2)] obtain s1 where st: "step ?B s = Some s1"
    by blast
  from phase_step_receiver [OF less.prems(1) st less.prems(3)]
  have "at_phase Pending A sem m p del s0 s1 \<or> at_phase Dispatched A sem m p del s0 s1"
    by simp
  then show ?case
  proof
    assume d: "at_phase Dispatched A sem m p del s0 s1"
    have "run (replicate 1 ?B) s = Some s1"
      using st by simp
    with d show ?thesis by blast
  next
    assume p1: "at_phase Pending A sem m p del s0 s1"
    from less.hyps [OF pending_measure [OF less.prems(1) st p1] p1
        step_looping [OF st less.prems(2)] less.prems(3)]
    obtain n s' where "run (replicate n ?B) s1 = Some s'"
      and "at_phase Dispatched A sem m p del s0 s'"
      by blast
    with st have "run (replicate (Suc n) ?B) s = Some s'"
      by simp
    with \<open>at_phase Dispatched A sem m p del s0 s'\<close> show ?thesis
      by blast
  qed
qed

lemma phase_caller_progress:
  assumes "at_phase ph A sem m p del s0 s"
    and "ph \<in> {Constructing, Posting, Released}"
  shows "\<exists>s'. step A s = Some s'"
  using assms by (auto simp: at_phase_def Let_def step_def)

lemma run_step: "step t s = Some s1 \<Longrightarrow> run sched s1 = Some s' \<Longrightarrow> run (t # sched) s = Some s'"
  by simp

lemma blocking_call_completes:
  assumes ph: "at_phase ph A sem m p del s0 s"
    and AB: "A \<noteq> affinity s0 (object m)"
    and lp: "looping (activity s (affinity s0 (object m)))"
  shows "\<exists>sched s'. run sched s = Some s' \<and> activity s' A = Returned True"
proof -
  let ?B = "affinity s0 (object m)"
  let ?goal = "\<lambda>s. \<exists>sched s'. run sched s = Some s' \<and> activity s' A = Returned True"
  have completed: "?goal s" if "at_phase Completed A sem m p del s0 s" for s
  proof -
    from that have "activity s A = Returned True"
      by (simp add: at_phase_def Let_def)
    moreover have "run [] s = Some s" by simp
    ultimately show ?thesis by blast
  qed
  have released: "?goal s" if r: "at_phase Released A sem m p del s0 s" for s
  proof -
    from phase_caller_progress [OF r] obtain s1 where st: "step A s = Some s1"
      by auto
    from phase_step_caller [OF r st AB] have "at_phase Completed A sem m p del s0 s1"
      by simp
    from completed [OF this] run_step [OF st] show ?thesis
      by blast
  qed
  have invoked: "?goal s" if r: "at_phase Invoked A sem m p del s0 s" for s
  proof -
    from r have "activity s ?B \<noteq> EventLoop" and "looping (activity s ?B)"
      by (auto simp: at_phase_def Let_def)
    with step_progress [of s ?B] obtain s1 where st: "step ?B s = Some s1"
      by blast
    from phase_step_receiver [OF r st AB] have "at_phase Released A sem m p del s0 s1"
      by simp
    from released [OF this] run_step [OF st] show ?thesis
      by blast
  qed
  have dispatched: "?goal s" if r: "at_phase Dispatched A sem m p del s0 s" for s
  proof -
    from r have "activity s ?B \<noteq> EventLoop" and "looping (activity s ?B)"
      by (auto simp: at_phase_def Let_def)
    with step_progress [of s ?B] obtain s1 where st: "step ?B s = Some s1"
      by blast
    from phase_step_receiver [OF r st AB] have "at_phase Invoked A sem m p del s0 s1"
      by simp
    from invoked [OF this] run_step [OF st] show ?thesis
      by blast
  qed
  have pending: "?goal s"
    if r: "at_phase Pending A sem m p del s0 s" and l: "looping (activity s ?B)" for s
  proof -
    from pending_drains [OF r l AB] obtain n s1 where
      rn: "run (replicate n ?B) s = Some s1" and d: "at_phase Dispatched A sem m p del s0 s1"
      by blast
    from dispatched [OF d] obtain sched s' where
      "run sched s1 = Some s'" and "activity s' A = Returned True"
      by blast
    with rn have "run (replicate n ?B @ sched) s = Some s'"
      by (simp add: run_append)
    with \<open>activity s' A = Returned True\<close> show ?thesis
      by blast
  qed
  have posting: "?goal s"
    if r: "at_phase Posting A sem m p del s0 s" and l: "looping (activity s ?B)" for s
  proof -
    from phase_caller_progress [OF r] obtain s1 where st: "step A s = Some s1"
      by auto
    from phase_step_caller [OF r st AB] have "at_phase Pending A sem m p del s0 s1"
      by simp
    from pending [OF this step_looping [OF st l]] run_step [OF st] show ?thesis
      by blast
  qed
  have constructing: "?goal s"
    if r: "at_phase Constructing A sem m p del s0 s" and l: "looping (activity s ?B)" for s
  proof -
    from phase_caller_progress [OF r] obtain s1 where st: "step A s = Some s1"
      by auto
    from phase_step_caller [OF r st AB] have "at_phase Posting A sem m p del s0 s1"
      by simp
    from posting [OF this step_looping [OF st l]] run_step [OF st] show ?thesis
      by blast
  qed
  from ph lp show ?thesis
    using completed released invoked dispatched pending posting constructing
    by (cases ph) blast+
qed

lemma blocking_call_can_return:
  assumes "effectiveType A (affinity s0) m = ConnectionTypeBlocking"
    and "A \<noteq> affinity s0 (object m)"
    and "fresh A sem p s0"
    and "looping (activity s0 (affinity s0 (object m)))"
    and "run sched (call A (activatePack A (affinity s0) sem m p del) s0) = Some s"
  shows "\<exists>sched' s'. run sched' s = Some s' \<and> activity s' A = Returned True"
proof -
  let ?s1 = "call A (activatePack A (affinity s0) sem m p del) s0"
  from phase_run [OF assms(5) phase_initial [OF assms(1-3)] assms(2)]
  obtain ph where ph: "at_phase ph A sem m p del s0 s"
    by blast
  have "looping (activity ?s1 (affinity s0 (object m)))"
    using assms(2,4) by (simp add: call_def)
  from run_looping [OF assms(5) this] have "looping (activity s (affinity s0 (object m)))" .
  from blocking_call_completes [OF ph assms(2) this] show ?thesis .
qed

text \<open>
  C5.  When the effective connection type is ConnectionTypeBlocking, activatePack
  constructs a semaphore, posts to the receiver object an InvokeMessage that carries the
  pack and that semaphore, waits for the semaphore and returns true.  In every run of the
  system, whatever the other threads do, the call has returned only if the thread of the
  receiver object has invoked the method on the pack and then released the semaphore,
  before the caller acquired it; the value in the return slot of the pack is then the
  value the method computed from the arguments of the pack.  When the receiver's thread
  is another thread that waits in its run loop, the call does return; more generally, when
  the receiver's thread is another thread that keeps its loop running, every state that
  the system reaches during the call can be continued to the return of the call.
\<close>

theorem activatePack_blocking:
  assumes eff: "effectiveType A (affinity s0) m = ConnectionTypeBlocking"
    and fr: "fresh A sem p s0"
  shows "activatePack A (affinity s0) sem m p del =
           ([SemaphoreConstruct sem,
             PostMessage (object m) (blocking_message sem m p del),
             SemaphoreAcquire sem],
            True) \<and>
         (\<forall>sched s b.
            run sched (call A (activatePack A (affinity s0) sem m p del) s0) = Some s \<and>
            activity s A = Returned b \<longrightarrow>
              b = True \<and>
              ret (packs s p) = Some (func m (args (packs s0 p))) \<and>
              events (length (trace s0)) sem p s = blocking_events A sem m p del s0) \<and>
         (A \<noteq> affinity s0 (object m) \<and>
          activity s0 (affinity s0 (object m)) = EventLoop \<and>
          messages s0 (affinity s0 (object m)) = [] \<longrightarrow>
            (\<exists>s. run [A, A, affinity s0 (object m), affinity s0 (object m),
                      affinity s0 (object m), A]
                   (call A (activatePack A (affinity s0) sem m p del) s0) = Some s \<and>
                 activity s A = Returned True)) \<and>
         (A \<noteq> affinity s0 (object m) \<and> looping (activity s0 (affinity s0 (object m))) \<longrightarrow>
            (\<forall>sched s.
               run sched (call A (activatePack A (affinity s0) sem m p del) s0) = Some s \<longrightarrow>
                 (\<exists>sched' s'. run sched' s = Some s' \<and> activity s' A = Returned True)))"
proof (intro conjI allI impI)
  show "activatePack A (affinity s0) sem m p del =
           ([SemaphoreConstruct sem,
             PostMessage (object m) (blocking_message sem m p del),
             SemaphoreAcquire sem],
            True)"
    using eff by (simp add: activatePack_def blocking_message_def)
next
  fix sched s b
  assume r: "run sched (call A (activatePack A (affinity s0) sem m p del) s0) = Some s \<and>
             activity s A = Returned b"
  have AB: "A \<noteq> affinity s0 (object m)"
    using blocking_same_thread_deadlock [OF eff _ fr] r by blast
  from r have r1: "run sched (call A (activatePack A (affinity s0) sem m p del) s0) = Some s"
    and r2: "activity s A = Returned b"
    by simp_all
  from blocking_call_safety [OF eff AB fr r1 r2]
  show "b = True"
    and "ret (packs s p) = Some (func m (args (packs s0 p)))"
    and "events (length (trace s0)) sem p s = blocking_events A sem m p del s0"
    by simp_all
next
  assume "A \<noteq> affinity s0 (object m) \<and>
          activity s0 (affinity s0 (object m)) = EventLoop \<and>
          messages s0 (affinity s0 (object m)) = []"
  then show "\<exists>s. run [A, A, affinity s0 (object m), affinity s0 (object m),
                      affinity s0 (object m), A]
                   (call A (activatePack A (affinity s0) sem m p del) s0) = Some s \<and>
                 activity s A = Returned True"
    using blocking_call_returns [OF eff] by simp
next
  fix sched s
  assume "A \<noteq> affinity s0 (object m) \<and> looping (activity s0 (affinity s0 (object m)))"
    and "run sched (call A (activatePack A (affinity s0) sem m p del) s0) = Some s"
  then show "\<exists>sched' s'. run sched' s = Some s' \<and> activity s' A = Returned True"
    using blocking_call_can_return [OF eff _ fr] by blast
qed

theorem activatePack_blocking_witness:
  "effectiveType 1 (affinity example_system) example_method = ConnectionTypeBlocking \<and>
   fresh 1 0 3 example_system \<and>
   looping (activity example_system (affinity example_system (object example_method))) \<and>
   (\<exists>s. run [1, 1, 2, 2, 2, 1]
          (call 1 (activatePack 1 (affinity example_system) 0 example_method 3 True)
             example_system) = Some s \<and>
        activity s 1 = Returned True \<and>
        ret (packs s 3) = Some 21 \<and>
        events 0 0 3 s = blocking_events 1 0 example_method 3 True example_system)"
proof -
  have eff: "effectiveType 1 (affinity example_system) example_method = ConnectionTypeBlocking"
    by (simp add: effectiveType_def example_method_def)
  have fr: "fresh 1 0 3 example_system"
    by (simp add: fresh_def example_system_def)
  note th = activatePack_blocking [OF eff fr, of True]
  have idle: "(1 :: Thread) \<noteq> affinity example_system (object example_method) \<and>
      activity example_system (affinity example_system (object example_method)) = EventLoop \<and>
      messages example_system (affinity example_system (object example_method)) = []"
    by (simp add: example_system_def)
  have B: "affinity example_system (object example_method) = 2"
    by (simp add: example_system_def)
  from th idle obtain s where
    r: "run [1, 1, 2, 2, 2, 1]
          (call 1 (activatePack 1 (affinity example_system) 0 example_method 3 True)
             example_system) = Some s"
    and a: "activity s 1 = Returned True"
    unfolding B by blast
  from th r a have "ret (packs s 3) = Some (func example_method (args (packs example_system 3)))"
    and "events (length (trace example_system)) 0 3 s =
           blocking_events 1 0 example_method 3 True example_system"
    by blast+
  then have "ret (packs s 3) = Some 21"
    and "events 0 0 3 s = blocking_events 1 0 example_method 3 True example_system"
    by (simp_all add: example_system_def example_method_def)
  moreover have "looping (activity example_system (affinity example_system (object example_method)))"
    by (simp add: example_system_def)
  ultimately show ?thesis
    using eff fr r a by blast
qed

section \<open>Properties of Signal::emit\<close>














lemma signal_run_append:
  "signal_run (xs @ ys) ss =
     (case signal_run xs ss of None \<Rightarrow> None | Some ss' \<Rightarrow> signal_run ys ss')"
  by (induction xs arbitrary: ss) (auto split: option.splits)




















section \<open>Properties of the threaded event test\<close>

lemma poll_idle: "pipe w = [] \<Longrightarrow> poll t interrupted w = Some w"
  by (simp add: poll_def)

lemma loop_idle: "pipe w = [] \<Longrightarrow> loop n t interrupted w = Some w"
  by (induction n) (simp_all add: poll_idle)

lemma loop_foreign: "handler_thread w \<noteq> t \<Longrightarrow> loop n t interrupted w = Some w"
  by (induction n) (simp_all add: poll_def)

lemma EventThreadTest_moved_eq:
  assumes "main \<noteq> thread"
  shows "EventThreadTest_moved main thread interrupted d z i j =
           Some \<lparr>pipe = ''H2G2'',
                 handler = \<lparr>notified = False, data = replicate 16 (CHR 0x00), size = 0\<rparr>,
                 handler_thread = thread, activations = []\<rparr>"
proof -
  have "loop i thread interrupted (EventHandler_new main d z) = Some (EventHandler_new main d z)"
    using assms by (intro loop_foreign) (simp add: EventHandler_new_def)
  moreover have "loop j thread interrupted (notify (EventHandler_new main d z)) =
      Some (notify (EventHandler_new main d z))"
    using assms by (intro loop_foreign) (simp add: EventHandler_new_def notify_def)
  ultimately show ?thesis
    by (simp add: EventThreadTest_moved_def moveToThread_def notify_def EventHandler_new_def)
qed

text \<open>
  C6.  The handler is created on the main thread, the four bytes are written to the
  pipe, and the handler is moved to the second thread; until then the dispatcher of the
  second thread, whatever the number of times it has polled, has not seen the notifier,
  and no callback has run.  Once the loop of the second thread has made an iteration
  after the move, and however many more it makes, the read callback has run exactly once,
  on the second thread, it has recorded the four bytes, and the test passes.
\<close>

theorem moved_notifier_fires_once:
  assumes "main \<noteq> thread" and "0 < n"
  shows "\<exists>wm w.
           EventThreadTest_moved main thread interrupted d z i j = Some wm \<and>
           activations wm = [] \<and>
           pipe wm = ''H2G2'' \<and>
           EventThreadTest_state main thread interrupted d z i j n = Some w \<and>
           activations w = [thread] \<and>
           size (handler w) = 4 \<and>
           take 4 (data (handler w)) = ''H2G2'' \<and>
           notified (handler w) \<and>
           EventThreadTest_run main thread interrupted d z i j n = Some TestPass"
proof -
  let ?wm = "\<lparr>pipe = ''H2G2'',
              handler = \<lparr>notified = False, data = replicate 16 (CHR 0x00), size = 0\<rparr>,
              handler_thread = thread, activations = []\<rparr>"
  let ?w = "\<lparr>pipe = [],
             handler = \<lparr>notified = True, data = ''H2G2'' @ replicate 12 (CHR 0x00), size = 4\<rparr>,
             handler_thread = thread, activations = [thread]\<rparr>"
  note m = EventThreadTest_moved_eq [OF assms(1), of interrupted d z i j]
  from assms(2) obtain k where n: "n = Suc k"
    by (cases n) auto
  have p: "poll thread interrupted ?wm = Some ?w"
    by (simp add: poll_def readReady_def read_def)
  have "loop n thread interrupted ?wm = Some ?w"
    using loop_idle [of ?w k thread interrupted] by (simp add: n p)
  then have s: "EventThreadTest_state main thread interrupted d z i j n = Some ?w"
    by (simp add: EventThreadTest_state_def m)
  then have r: "EventThreadTest_run main thread interrupted d z i j n = Some TestPass"
    by (simp add: EventThreadTest_run_def)
  show ?thesis
    by (rule exI [of _ ?wm], rule exI [of _ ?w]) (simp add: m s r)
qed

theorem moved_notifier_fires_once_witness:
  "\<exists>w. EventThreadTest_state 0 1 False [] 0 2 1 3 = Some w \<and>
       activations w = [1] \<and>
       size (handler w) = 4 \<and>
       EventThreadTest_run 0 1 False [] 0 2 1 3 = Some TestPass"
  using moved_notifier_fires_once [of 0 1 3 False "[]" 0 2 1] by auto

end
